theory Spec2Isabelle
  imports Complex_Main "HOL-Library.Product_Lexorder" "HOL-Library.Multiset"
begin

section \<open>Shared vocabulary\<close>

text \<open>
  The clustering module \<^verbatim>\<open>mathics/algorithm/clusters.py\<close> is embedded function by
  function. Exceptions are values of \<open>error\<close>; a function that can raise returns
  \<open>error + 'a\<close> with \<open>Inl\<close> for the exception. Distances are real numbers. Where
  the code computes with them in the running cost of a medoid table and in the Dunn
  ratio comparison, every arithmetic result is rounded as floating-point arithmetic
  rounds it (section \<open>Floating-point rounding\<close>); the sums of the silhouette
  functions are exact sums. Tuples are compared as Python compares them,
  lexicographically. Point indices are the handles \<open>0..n-1\<close>, hence natural numbers.
\<close>

datatype error =
    ValueError | IndexError | TypeError | AssertionError
  | ZeroDivisionError | NotImplementedError | AttributeError | InfiniteSilhouette

text \<open>\<^verbatim>\<open>xs[i]\<close> for a non-negative index: IndexError beyond the end.\<close>

definition getitem :: "'a list \<Rightarrow> nat \<Rightarrow> error + 'a" where
  "getitem xs i = (if i < length xs then Inr (xs ! i) else Inl IndexError)"

text \<open>\<^verbatim>\<open>xs[i]\<close> and \<^verbatim>\<open>xs[i] = v\<close> for a Python integer: a negative index counts from the
  end, IndexError outside \<open>-len(xs) .. len(xs) - 1\<close>.\<close>

definition py_position :: "nat \<Rightarrow> int \<Rightarrow> nat option" where
  "py_position len i =
     (if 0 \<le> i \<and> i < int len then Some (nat i)
      else if i < 0 \<and> - int len \<le> i then Some (nat (int len + i))
      else None)"

definition py_getitem :: "'a list \<Rightarrow> int \<Rightarrow> error + 'a" where
  "py_getitem xs i =
     (case py_position (length xs) i of None \<Rightarrow> Inl IndexError | Some k \<Rightarrow> Inr (xs ! k))"

definition py_setitem :: "'a list \<Rightarrow> int \<Rightarrow> 'a \<Rightarrow> error + 'a list" where
  "py_setitem xs i v =
     (case py_position (length xs) i of None \<Rightarrow> Inl IndexError | Some k \<Rightarrow> Inr (xs[k := v]))"

text \<open>\<^verbatim>\<open>_index(i, j)\<close>: \<open>j + ((i - 1) * i) // 2\<close>. For the non-negative
  arguments it receives, \<open>(i - 1) * i\<close> is never negative, so the natural-number
  reading agrees with Python's integers (also at \<open>i = 0\<close>, where both give \<open>j\<close>).\<close>

definition index :: "nat \<Rightarrow> nat \<Rightarrow> nat" where
  "index i j = j + ((i - 1) * i) div 2"

section \<open>Floating-point rounding\<close>

text \<open>
  A Python float and an \<^verbatim>\<open>mpf\<close> number of mpmath at its default precision (what
  \<^verbatim>\<open>fsum\<close> returns, hence what the running cost of a medoid table is) both carry 53
  significant bits, and both round the exact result of an operation to the nearest
  number of that form, a tie going to the even mantissa. The exponent of an \<^verbatim>\<open>mpf\<close>
  is unbounded, as it is here; the overflow and underflow of a float are not
  modelled.

  \<open>round_half_even\<close> rounds to the nearest integer, a tie to the even one. For
  \<open>x > 0\<close> with \<open>2 powi e \<le> x < 2 powi (e + 1)\<close> the 53-bit numbers around \<open>x\<close> are
  the multiples of \<open>2 powi (e - 52)\<close>, and \<open>round_pos\<close> takes the nearest; \<open>mpf_round\<close>
  rounds the magnitude and keeps the sign. \<open>is_mpf\<close> holds of the numbers that rounding leaves
  as they are: the 53-bit numbers.
\<close>

definition round_half_even :: "real \<Rightarrow> int" where
  "round_half_even x =
     (let f = \<lfloor>x\<rfloor>; r = x - of_int f in
      if r < 1 / 2 then f else if r > 1 / 2 then f + 1 else if even f then f else f + 1)"

definition exponent :: "real \<Rightarrow> int" where
  "exponent x = \<lfloor>log 2 x\<rfloor>"

definition round_pos :: "real \<Rightarrow> real" where
  "round_pos x =
     (let q = 2 powi (exponent x - 52) in of_int (round_half_even (x / q)) * q)"

definition mpf_round :: "real \<Rightarrow> real" where
  "mpf_round x = (if x = 0 then 0 else if 0 < x then round_pos x else - round_pos (- x))"

definition is_mpf :: "real \<Rightarrow> bool" where
  "is_mpf x = (mpf_round x = x)"

text \<open>\<^verbatim>\<open>fsum(terms)\<close> of mpmath: the terms are added exactly and the sum is rounded
  once. What is proved of the running cost below holds whichever number \<^verbatim>\<open>fsum\<close>
  returns for the terms, as long as it is a 53-bit number.\<close>

definition fsum :: "real list \<Rightarrow> real" where
  "fsum terms = mpf_round (sum_list terms)"

text \<open>\<^verbatim>\<open>_ratio_bigger_than(a, b)\<close>: both products are floating-point products.\<close>

definition ratio_bigger_than :: "real \<times> real \<Rightarrow> real \<times> real \<Rightarrow> bool" where
  "ratio_bigger_than a b =
     (case a of (a1, a2) \<Rightarrow> case b of (b1, b2) \<Rightarrow> mpf_round (a1 * b2) > mpf_round (b1 * a2))"

section \<open>The random source\<close>

text \<open>
  The state of Python's global generator is a stream of raw draws. \<^verbatim>\<open>random.getstate()\<close>
  reads the stream, \<^verbatim>\<open>random.setstate(s)\<close> replaces it. \<^verbatim>\<open>random.randint(a, b)\<close>
  consumes one draw and returns some \<open>N\<close> with \<open>a \<le> N \<le> b\<close>; every such outcome is the
  image of some raw draw. It raises ValueError on an empty range.
\<close>

type_synonym rng = "nat \<Rightarrow> nat"

definition advance :: "rng \<Rightarrow> rng" where
  "advance g = (\<lambda>i. g (Suc i))"

definition randint :: "int \<Rightarrow> int \<Rightarrow> rng \<Rightarrow> (error + int) \<times> rng" where
  "randint a b g =
     (if b < a then (Inl ValueError, g)
      else (Inr (a + int (g 0 mod nat (b - a + 1))), advance g))"

section \<open>Distance providers\<close>

text \<open>\<^verbatim>\<open>PrecomputedDistances\<close> holds the triangular array; \<^verbatim>\<open>LazyDistances\<close> holds
  the dictionary \<^verbatim>\<open>_computed\<close> of the distances computed so far.\<close>

datatype provider =
    PrecomputedDistances "real list"
  | LazyDistances "nat \<rightharpoonup> real"

text \<open>\<^verbatim>\<open>PrecomputedDistances.distance\<close>\<close>

definition precomputed_distance :: "real list \<Rightarrow> nat \<Rightarrow> nat \<Rightarrow> error + real" where
  "precomputed_distance ds i j = getitem ds (index (max i j) (min i j))"

text \<open>\<^verbatim>\<open>matrix()\<close> of either provider.\<close>

fun matrix :: "provider \<Rightarrow> error + real list" where
  "matrix (PrecomputedDistances ds) = Inr ds"
| "matrix (LazyDistances computed) = Inl ValueError"

text \<open>\<^verbatim>\<open>LazyDistances._compute_distance\<close> of the base class raises ValueError; a
  subclass overrides it, and may draw random numbers while it computes.\<close>

type_synonym compute_distance = "nat \<Rightarrow> nat \<Rightarrow> rng \<Rightarrow> (error + real) \<times> rng"

definition base_compute_distance :: compute_distance where
  "base_compute_distance i j g = (Inl ValueError, g)"

text \<open>\<^verbatim>\<open>LazyDistances.distance\<close>: returns the result, the dictionary and the random
  state it leaves. The \<^verbatim>\<open>finally\<close> clause puts the saved state back on both exits.\<close>

definition lazy_distance ::
  "compute_distance \<Rightarrow> (nat \<rightharpoonup> real) \<Rightarrow> nat \<Rightarrow> nat \<Rightarrow> rng
     \<Rightarrow> (error + real) \<times> (nat \<rightharpoonup> real) \<times> rng" where
  "lazy_distance compute computed i j g =
     (let ix = index (max i j) (min i j) in
      case computed ix of
        Some d \<Rightarrow> (Inr d, computed, g)
      | None \<Rightarrow>
          (let random_state = g;
               (r, g') = compute i j g
           in case r of
                Inl e \<Rightarrow> (Inl e, computed, random_state)
              | Inr d \<Rightarrow> (Inr d, computed(ix \<mapsto> d), random_state)))"

section \<open>Sequencing of computations that may raise\<close>

fun ebind :: "error + 'a \<Rightarrow> ('a \<Rightarrow> error + 'b) \<Rightarrow> error + 'b" where
  "ebind (Inl e) f = Inl e"
| "ebind (Inr x) f = f x"

text \<open>A comprehension whose element expression may raise: the first exception wins.\<close>

fun traverse :: "('a \<Rightarrow> error + 'b) \<Rightarrow> 'a list \<Rightarrow> error + 'b list" where
  "traverse f [] = Inr []"
| "traverse f (x # xs) = ebind (f x) (\<lambda>y. ebind (traverse f xs) (\<lambda>ys. Inr (y # ys)))"

text \<open>\<^verbatim>\<open>max(iterable)\<close> and \<^verbatim>\<open>min(iterable)\<close>: ValueError on an empty sequence.\<close>

definition max_of :: "'a::linorder list \<Rightarrow> error + 'a" where
  "max_of xs = (case xs of [] \<Rightarrow> Inl ValueError | x # ys \<Rightarrow> Inr (fold max ys x))"

definition min_of :: "'a::linorder list \<Rightarrow> error + 'a" where
  "min_of xs = (case xs of [] \<Rightarrow> Inl ValueError | x # ys \<Rightarrow> Inr (fold min ys x))"

section \<open>The Dunn merge criterion\<close>

text \<open>
  The agglomerative engine keeps its clusters in a list whose slot \<open>r\<close> is the member
  list of cluster \<open>r\<close>, or \<^verbatim>\<open>None\<close> once the cluster has been merged away.
\<close>

type_synonym clusters = "nat list option list"

text \<open>\<^verbatim>\<open>for x in c\<close> raises TypeError when \<open>c\<close> is \<^verbatim>\<open>None\<close>.\<close>

definition members_of :: "clusters \<Rightarrow> nat \<Rightarrow> error + nat list" where
  "members_of cl r =
     ebind (getitem cl r) (\<lambda>c. case c of None \<Rightarrow> Inl TypeError | Some xs \<Rightarrow> Inr xs)"

text \<open>\<^verbatim>\<open>[c[:] for c in clusters if c]\<close>: the slots that are neither \<^verbatim>\<open>None\<close> nor empty.\<close>

definition live_clusters :: "clusters \<Rightarrow> nat list list" where
  "live_clusters cl = concat (map (\<lambda>c. case c of None \<Rightarrow> [] | Some xs \<Rightarrow> if xs = [] then [] else [xs]) cl)"

record dunn_criterion =
  distances :: "real list"
  n_points :: nat
  diameters :: "real option list"
  max_diameter :: real
  best_dunn :: "(real \<times> real) option"
  best_partition :: "nat list list option"
  merge_limit :: "real option"

text \<open>\<^verbatim>\<open>_DunnMergeCriterion.__init__\<close>\<close>

definition dunn_init :: "real list \<Rightarrow> nat \<Rightarrow> real option \<Rightarrow> dunn_criterion" where
  "dunn_init ds n limit =
     \<lparr>distances = ds, n_points = n, diameters = replicate n (Some 0), max_diameter = 0,
      best_dunn = None, best_partition = None, merge_limit = limit\<rparr>"

text \<open>\<^verbatim>\<open>MergeCriterion._fast_distance\<close>\<close>

definition fast_distance :: "real list \<Rightarrow> nat \<Rightarrow> nat \<Rightarrow> error + real" where
  "fast_distance ds x y = getitem ds (index (max x y) (min x y))"

text \<open>\<^verbatim>\<open>max(distance(x, y) for x in clusters[i] for y in clusters[j])\<close>: the outer
  iterable is read once, the inner one for every \<open>x\<close>.\<close>

definition new_diameter :: "real list \<Rightarrow> clusters \<Rightarrow> nat \<Rightarrow> nat \<Rightarrow> error + real" where
  "new_diameter ds cl i j =
     ebind (members_of cl i) (\<lambda>ci.
     ebind (traverse (\<lambda>x. ebind (members_of cl j) (traverse (fast_distance ds x))) ci) (\<lambda>dss.
     max_of (concat dss)))"

text \<open>A diameter read for \<^verbatim>\<open>max\<close>: comparing \<^verbatim>\<open>None\<close> with a number raises TypeError.\<close>

definition diameter_at :: "real option list \<Rightarrow> nat \<Rightarrow> error + real" where
  "diameter_at dm r =
     ebind (getitem dm r) (\<lambda>d. case d of None \<Rightarrow> Inl TypeError | Some v \<Rightarrow> Inr v)"

text \<open>The first half of \<^verbatim>\<open>save_and_merge\<close>: save the current partition if its Dunn
  ratio is bigger than the best one so far.\<close>

definition save_best :: "dunn_criterion \<Rightarrow> clusters \<Rightarrow> real \<Rightarrow> dunn_criterion" where
  "save_best c cl d_min =
     (let dunn = (d_min, max_diameter c) in
      if (case best_dunn c of None \<Rightarrow> True | Some b \<Rightarrow> ratio_bigger_than dunn b)
      then c\<lparr>best_partition := Some (live_clusters cl),
             best_dunn := (if max_diameter c > 0 then Some dunn else best_dunn c)\<rparr>
      else c)"

text \<open>\<^verbatim>\<open>_DunnMergeCriterion.save_and_merge\<close>: the answer and the criterion it leaves.\<close>

definition save_and_merge ::
  "dunn_criterion \<Rightarrow> clusters \<Rightarrow> nat \<Rightarrow> nat \<Rightarrow> real \<Rightarrow> error + (bool \<times> dunn_criterion)" where
  "save_and_merge c0 cl i j d_min =
     (let c = save_best c0 cl d_min in
      if (case merge_limit c of None \<Rightarrow> False | Some l \<Rightarrow> d_min > l) then Inr (False, c)
      else
        ebind (new_diameter (distances c) cl i j) (\<lambda>nd.
        ebind (diameter_at (diameters c) i) (\<lambda>di.
        ebind (diameter_at (diameters c) j) (\<lambda>dj.
          let dm = (diameters c)[i := Some (max (max di dj) nd)];
              dm = dm[j := None]
          in ebind (diameter_at dm i) (\<lambda>di'.
               Inr (True, c\<lparr>diameters := dm, max_diameter := max (max_diameter c) di'\<rparr>))))))"

text \<open>\<^verbatim>\<open>_DunnMergeCriterion.best\<close>\<close>

definition dunn_best :: "dunn_criterion \<Rightarrow> nat list list option" where
  "dunn_best c = best_partition c"

text \<open>The criterion states the engine can reach: the fresh criterion, and whatever
  \<^verbatim>\<open>save_and_merge\<close> leaves when it returns.\<close>

inductive dunn_reachable :: "dunn_criterion \<Rightarrow> bool" where
  fresh: "dunn_reachable (dunn_init ds n limit)"
| merged: "dunn_reachable c \<Longrightarrow> save_and_merge c cl i j d = Inr (b, c') \<Longrightarrow> dunn_reachable c'"

text \<open>What every reachable criterion satisfies: a saved fraction has a positive
  denominator, and the maximal diameter has not fallen below it.\<close>

definition dunn_inv :: "dunn_criterion \<Rightarrow> bool" where
  "dunn_inv c = (case best_dunn c of None \<Rightarrow> True | Some (b1, b2) \<Rightarrow> 0 < b2 \<and> b2 \<le> max_diameter c)"

section \<open>The deterministic sampler\<close>

text \<open>What \<^verbatim>\<open>next()\<close> on a generator gives: a value, StopIteration, or an exception.\<close>

datatype 'a step = Yield 'a | Stop | Raise error

text \<open>
  \<^verbatim>\<open>_shuffled_range(n)\<close> is a generator. Its state is the dictionary \<open>a\<close>, the loop
  variable \<open>i\<close>, the bound \<open>n\<close>, and whether it has finished. \<open>nth\<close> is
  \<^verbatim>\<open>a.get(k, k)\<close>. The values are Python integers: the last \<^verbatim>\<open>yield\<close> reads
  \<open>nth(n - 1)\<close> also when \<open>n - 1\<close> is negative.
\<close>

record shuffled =
  overrides :: "int \<rightharpoonup> int"
  cursor :: int
  bound :: int
  finished :: bool

definition nth_of :: "(int \<rightharpoonup> int) \<Rightarrow> int \<Rightarrow> int" where
  "nth_of a k = (case a k of None \<Rightarrow> k | Some v \<Rightarrow> v)"

definition shuffled_range :: "int \<Rightarrow> shuffled" where
  "shuffled_range n = \<lparr>overrides = Map.empty, cursor = 0, bound = n, finished = False\<rparr>"

text \<open>One \<^verbatim>\<open>next()\<close>: inside \<^verbatim>\<open>for i in range(n - 1)\<close> while \<open>i < n - 1\<close>, then the
  final \<^verbatim>\<open>yield nth(n - 1)\<close>, then StopIteration.\<close>

definition shuffled_next :: "shuffled \<Rightarrow> rng \<Rightarrow> int step \<times> shuffled \<times> rng" where
  "shuffled_next st g =
     (if finished st then (Stop, st, g)
      else if cursor st < bound st - 1 then
        (let ai = nth_of (overrides st) (cursor st) in
         case randint (cursor st) (bound st - 1) g of
           (Inl e, g') \<Rightarrow> (Raise e, st\<lparr>finished := True\<rparr>, g')
         | (Inr j, g') \<Rightarrow>
             (let aj = nth_of (overrides st) j
              in (Yield aj, st\<lparr>overrides := (overrides st)(j \<mapsto> ai), cursor := cursor st + 1\<rparr>, g')))
      else (Yield (nth_of (overrides st) (bound st - 1)), st\<lparr>finished := True\<rparr>, g))"

text \<open>The whole sequence a generator state still produces, \<^verbatim>\<open>list(gen)\<close>.\<close>

function shuffled_rest :: "shuffled \<Rightarrow> rng \<Rightarrow> (error + int list) \<times> rng" where
  "shuffled_rest st g =
     (case shuffled_next st g of
        (Stop, st', g') \<Rightarrow> (Inr [], g')
      | (Raise e, st', g') \<Rightarrow> (Inl e, g')
      | (Yield x, st', g') \<Rightarrow>
          (case shuffled_rest st' g' of
             (Inl e, g'') \<Rightarrow> (Inl e, g'')
           | (Inr xs, g'') \<Rightarrow> (Inr (x # xs), g'')))"
  by pat_completeness auto
termination
  apply (relation "measure (\<lambda>(st, g). if finished st then 0 else Suc (nat (bound st - cursor st)))")
   apply simp
  apply (auto simp: shuffled_next_def Let_def randint_def split: if_splits)
  done

declare shuffled_rest.simps [simp del]

text \<open>\<^verbatim>\<open>list(_shuffled_range(n))\<close>\<close>

definition shuffled_range_list :: "int \<Rightarrow> rng \<Rightarrow> (error + int list) \<times> rng" where
  "shuffled_range_list n g = shuffled_rest (shuffled_range n) g"

text \<open>\<^verbatim>\<open>_shuffled_tuples(*t)\<close>: the generator over \<^verbatim>\<open>_shuffled_range\<close> of the product
  of the ranges; each index is decoded by \<^verbatim>\<open>n % x\<close> and \<^verbatim>\<open>n // x\<close>, which raise
  ZeroDivisionError for a range \<open>x = 0\<close>.\<close>

fun decode :: "int \<Rightarrow> int list \<Rightarrow> error + int list" where
  "decode n [] = Inr []"
| "decode n (x # t) =
     (if x = 0 then Inl ZeroDivisionError
      else ebind (decode (n div x) t) (\<lambda>r. Inr (n mod x # r)))"

definition shuffled_tuples :: "int list \<Rightarrow> shuffled" where
  "shuffled_tuples t = shuffled_range (prod_list t)"

definition tuples_next :: "int list \<Rightarrow> shuffled \<Rightarrow> rng \<Rightarrow> int list step \<times> shuffled \<times> rng" where
  "tuples_next t st g =
     (case shuffled_next st g of
        (Stop, st', g') \<Rightarrow> (Stop, st', g')
      | (Raise e, st', g') \<Rightarrow> (Raise e, st', g')
      | (Yield n, st', g') \<Rightarrow>
          (case decode n t of
             Inl e \<Rightarrow> (Raise e, st'\<lparr>finished := True\<rparr>, g')
           | Inr r \<Rightarrow> (Yield r, st', g')))"

section \<open>The silhouette split criterion\<close>

text \<open>
  A partitional cluster: its medoid and its members. \<^verbatim>\<open>_Cluster.within\<close> caches the
  pair it computes; every cluster is evaluated with the one distance function of the
  call, so the cache never changes the value and the model recomputes it.
\<close>

record cluster =
  medoid :: int
  members :: "int list"

text \<open>The distance capability \<open>d(i, j)\<close> the engines are given, a function of two point
  indices. The indices of the partitional engine are Python integers.\<close>

type_synonym dist = "int \<Rightarrow> int \<Rightarrow> real"

text \<open>\<^verbatim>\<open>_Cluster.translate\<close>: \<open>i_to_i0\<close> is a tuple, indexed by position.\<close>

definition translate :: "cluster \<Rightarrow> int list \<Rightarrow> error + cluster" where
  "translate c i_to_i0 =
     ebind (py_getitem i_to_i0 (medoid c)) (\<lambda>m.
     ebind (traverse (py_getitem i_to_i0) (members c)) (\<lambda>ms.
     Inr \<lparr>medoid = m, members = ms\<rparr>))"

text \<open>\<^verbatim>\<open>_Cluster.within\<close>, here \<open>within_of\<close> (\<open>within\<close> is syntax of the library).\<close>

definition within_of :: "cluster \<Rightarrow> dist \<Rightarrow> real \<times> nat" where
  "within_of c distance =
     (let m = medoid c;
          s_w = sum_list (map (\<lambda>i. distance i m) (filter (\<lambda>i. i \<noteq> m) (members c)));
          n_w = length (members c)
      in (s_w, n_w))"

text \<open>\<^verbatim>\<open>_robust_min\<close>: \<^verbatim>\<open>None\<close> for an empty sequence.\<close>

fun robust_min_from :: "'a::linorder option \<Rightarrow> 'a list \<Rightarrow> 'a option" where
  "robust_min_from minimum [] = minimum"
| "robust_min_from minimum (i # rest) =
     robust_min_from (case minimum of None \<Rightarrow> Some i
                      | Some m \<Rightarrow> if i < m then Some i else Some m) rest"

definition robust_min :: "'a::linorder list \<Rightarrow> 'a option" where
  "robust_min xs = robust_min_from None xs"

text \<open>
  What the quotient \<^verbatim>\<open>(b - a) / max(a, b)\<close> evaluates to depends on the numbers the
  distance function returns, so the division is a parameter. Python's own numbers (and
  the \<^verbatim>\<open>mpf\<close> values \<^verbatim>\<open>fsum\<close> returns) raise ZeroDivisionError on a zero divisor: that
  is \<open>python_division\<close>. A quotient that is not a number is \<open>NaN\<close>, the only value equal
  to \<^verbatim>\<open>sympy.nan\<close>.
\<close>

datatype quotient = Number real | NaN

type_synonym division = "real \<Rightarrow> real \<Rightarrow> error + quotient"

definition python_division :: division where
  "python_division x y = (if y = 0 then Inl ZeroDivisionError else Inr (Number (x / y)))"

text \<open>\<^verbatim>\<open>_silhouette(a, b)\<close>: \<open>a\<close> is \<^verbatim>\<open>None\<close> for a singleton cluster; \<open>b\<close> is \<^verbatim>\<open>None\<close>
  when there is no other cluster, and then \<open>b - a\<close> raises TypeError.\<close>

definition silhouette :: "division \<Rightarrow> real option \<Rightarrow> real option \<Rightarrow> error + real" where
  "silhouette dv a b =
     (case a of
        None \<Rightarrow> Inr 0
      | Some a' \<Rightarrow>
          (case b of
             None \<Rightarrow> Inl TypeError
           | Some b' \<Rightarrow>
               ebind (dv (b' - a') (max a' b')) (\<lambda>s.
                 case s of NaN \<Rightarrow> Inl InfiniteSilhouette | Number v \<Rightarrow> Inr v)))"

text \<open>\<^verbatim>\<open>_approximate_within_distances\<close>: \<open>n - 1\<close> is not zero where it divides.\<close>

definition approximate_within_distances :: "cluster list \<Rightarrow> dist \<Rightarrow> real option list" where
  "approximate_within_distances clusters distance =
     map (\<lambda>c. case within_of c distance of
                 (s, n) \<Rightarrow> if n = 1 then None else Some (s / real_of_int (int n - 1))) clusters"

text \<open>\<^verbatim>\<open>_approximate_mins_of_betweens_distances\<close> with \<^verbatim>\<open>other = other_medoids\<close>.\<close>

definition other_medoids :: "cluster list \<Rightarrow> nat \<Rightarrow> int list" where
  "other_medoids clusters i =
     map (\<lambda>(j, c). medoid c) (filter (\<lambda>(j, c). i \<noteq> j) (enumerate 0 clusters))"

definition approximate_mins_of_betweens_distances :: "cluster list \<Rightarrow> dist \<Rightarrow> real option list" where
  "approximate_mins_of_betweens_distances clusters distance =
     map (\<lambda>(i, a). robust_min (map (\<lambda>b. distance (medoid a) b) (other_medoids clusters i)))
       (enumerate 0 clusters)"

text \<open>\<^verbatim>\<open>_approximate_mean_silhouette_widths\<close>: the generator is consumed by \<^verbatim>\<open>fsum\<close>,
  cluster by cluster; the first exception ends it.\<close>

definition approximate_mean_silhouette_widths ::
  "division \<Rightarrow> cluster list \<Rightarrow> dist \<Rightarrow> error + real list" where
  "approximate_mean_silhouette_widths dv clusters distance =
     (let d_in = approximate_within_distances clusters distance;
          d_out = approximate_mins_of_betweens_distances clusters distance
      in traverse (\<lambda>(a, b). silhouette dv a b) (zip d_in d_out))"

text \<open>\<^verbatim>\<open>_approximate_global_silhouette_index\<close>\<close>

definition approximate_global_silhouette_index ::
  "division \<Rightarrow> cluster list \<Rightarrow> dist \<Rightarrow> error + real" where
  "approximate_global_silhouette_index dv clusters distance =
     (if length clusters \<le> 1 then Inr (- 1)
      else ebind (approximate_mean_silhouette_widths dv clusters distance) (\<lambda>ws.
             Inr (sum_list ws / real (length clusters))))"

text \<open>The split criteria: the base class, whose \<^verbatim>\<open>should_split\<close> raises
  NotImplementedError, and the approximate silhouette with its \<^verbatim>\<open>_last_criterion\<close>.\<close>

datatype split_criterion =
    SplitCriterion
  | ApproximateSilhouetteSplitCriterion "real option"

text \<open>\<^verbatim>\<open>should_split(siblings, merged, unmerged, distance)\<close>; \<open>merged\<close> is not read.\<close>

definition should_split ::
  "division \<Rightarrow> split_criterion \<Rightarrow> cluster list \<Rightarrow> (int option \<times> int list) \<Rightarrow> cluster list
     \<Rightarrow> dist \<Rightarrow> error + (bool \<times> split_criterion option)" where
  "should_split dv self siblings merged unmerged distance =
     (case self of
        SplitCriterion \<Rightarrow> Inl NotImplementedError
      | ApproximateSilhouetteSplitCriterion last_criterion \<Rightarrow>
          (case approximate_global_silhouette_index dv (siblings @ unmerged) distance of
             Inl e \<Rightarrow> (if e = InfiniteSilhouette then Inr (False, None) else Inl e)
           | Inr criterion \<Rightarrow>
               (if (case last_criterion of None \<Rightarrow> True | Some l \<Rightarrow> criterion > l)
                then Inr (True, Some (ApproximateSilhouetteSplitCriterion (Some criterion)))
                else Inr (False, None))))"

text \<open>The cluster whose silhouette ratio has the zero denominator: it has more than one
  member, and both its mean within-distance \<open>a\<close> and its distance \<open>b\<close> to the nearest
  other medoid are zero.\<close>

definition zero_silhouette :: "cluster list \<Rightarrow> dist \<Rightarrow> bool" where
  "zero_silhouette clusters distance =
     (\<exists>k < length clusters.
        \<exists>a b. approximate_within_distances clusters distance ! k = Some a
             \<and> approximate_mins_of_betweens_distances clusters distance ! k = Some b
             \<and> max a b = 0)"

section \<open>Sampling and the AGORAS seeder\<close>

text \<open>
  A computation that draws random numbers returns its result and the random state it
  leaves. A loop that need not end (\<^verbatim>\<open>while True\<close> in \<^verbatim>\<open>_agoras\<close>, the local search,
  the recursion of \<^verbatim>\<open>without_k\<close>) is given fuel, and \<open>Diverged\<close> is the result of a
  run the fuel does not cover.
\<close>

datatype 'a result = Ok 'a | Err error | Diverged

fun lift :: "error + 'a \<Rightarrow> 'a result" where
  "lift (Inl e) = Err e"
| "lift (Inr x) = Ok x"

text \<open>
  \<^verbatim>\<open>random.sample(population, k)\<close>: ValueError when \<open>k\<close> is negative or larger than the
  population; otherwise \<open>k\<close> elements at distinct positions, in selection order. Each
  draw picks a position among the elements still left, so every selection the library
  can return is the image of some raw stream.
\<close>

fun pick :: "'a list \<Rightarrow> nat \<Rightarrow> rng \<Rightarrow> 'a list \<times> rng" where
  "pick pool 0 g = ([], g)"
| "pick pool (Suc k) g =
     (let j = g 0 mod length pool;
          (rest, g') = pick (take j pool @ drop (Suc j) pool) k (advance g)
      in (pool ! j # rest, g'))"

definition sample :: "'a list \<Rightarrow> int \<Rightarrow> rng \<Rightarrow> (error + 'a list) \<times> rng" where
  "sample population k g =
     (if k < 0 \<or> int (length population) < k then (Inl ValueError, g)
      else case pick population (nat k) g of (xs, g') \<Rightarrow> (Inr xs, g'))"

text \<open>\<^verbatim>\<open>[random.sample(p, sz) for _ in range(m)]\<close>\<close>

fun samples :: "'a list \<Rightarrow> int \<Rightarrow> nat \<Rightarrow> rng \<Rightarrow> (error + 'a list list) \<times> rng" where
  "samples p sz 0 g = (Inr [], g)"
| "samples p sz (Suc m) g =
     (case sample p sz g of
        (Inl e, g') \<Rightarrow> (Inl e, g')
      | (Inr s, g') \<Rightarrow>
          (case samples p sz m g' of
             (Inl e, g'') \<Rightarrow> (Inl e, g'')
           | (Inr ss, g'') \<Rightarrow> (Inr (s # ss), g'')))"

text \<open>The distance function of a \<^verbatim>\<open>_Clusterer\<close>, \<^verbatim>\<open>_distance_lambda\<close>: the local indices
  are translated through the tuple \<open>i_to_i0\<close>, which raises IndexError out of range.\<close>

type_synonym local_dist = "int \<Rightarrow> int \<Rightarrow> error + real"

definition distance_lambda :: "dist \<Rightarrow> int list \<Rightarrow> local_dist" where
  "distance_lambda d0 i_to_i0 i j =
     ebind (py_getitem i_to_i0 i) (\<lambda>a. ebind (py_getitem i_to_i0 j) (\<lambda>b. Inr (d0 a b)))"

text \<open>\<^verbatim>\<open>_unmapped(u, v, distance)\<close>. The inner loop finds the position of the element
  of \<open>v\<close> nearest to \<open>uu\<close>; \<^verbatim>\<open>mapped[min_i] = True\<close> raises TypeError when \<open>v\<close> is empty
  and \<open>min_i\<close> is still \<^verbatim>\<open>None\<close>.\<close>

fun nearest :: "local_dist \<Rightarrow> int \<Rightarrow> (nat \<times> int) list \<Rightarrow> (real \<times> nat) option
    \<Rightarrow> error + (real \<times> nat) option" where
  "nearest distance uu [] best = Inr best"
| "nearest distance uu ((i, vv) # rest) best =
     ebind (if uu = vv then Inr 0 else distance uu vv) (\<lambda>d.
       nearest distance uu rest
         (case best of
            None \<Rightarrow> Some (d, i)
          | Some (min_d, min_i) \<Rightarrow> if d < min_d then Some (d, i) else Some (min_d, min_i)))"

fun mark_mapped :: "local_dist \<Rightarrow> int list \<Rightarrow> int list \<Rightarrow> bool list \<Rightarrow> error + bool list" where
  "mark_mapped distance [] v mapped = Inr mapped"
| "mark_mapped distance (uu # u) v mapped =
     ebind (nearest distance uu (enumerate 0 v) None) (\<lambda>best.
       case best of
         None \<Rightarrow> Inl TypeError
       | Some (min_d, min_i) \<Rightarrow> mark_mapped distance u v (mapped[min_i := True]))"

definition unmapped :: "int list \<Rightarrow> int list \<Rightarrow> local_dist \<Rightarrow> error + int list" where
  "unmapped u v distance =
     ebind (mark_mapped distance u v (replicate (length v) False)) (\<lambda>mapped.
       Inr (map snd (filter fst (zip mapped v))))"

text \<open>\<^verbatim>\<open>_agoras\<close>. \<^verbatim>\<open>math.log\<close> is a parameter \<open>lg\<close> of the model (it raises ValueError
  for \<open>k \<le> 0\<close>); the floats \<open>r\<close> and \<open>gamma\<close> are real numbers; \<^verbatim>\<open>int(r)\<close> truncates
  towards zero.\<close>

definition gamma :: real where
  "gamma = 577215664901532 / 1000000000000000"

definition int_of :: "real \<Rightarrow> int" where
  "int_of r = (if 0 \<le> r then \<lfloor>r\<rfloor> else \<lceil>r\<rceil>)"

text \<open>The reduction chain \<^verbatim>\<open>for i in range(m - 1)\<close>, with its \<^verbatim>\<open>break\<close>.\<close>

fun reduce_chain :: "local_dist \<Rightarrow> int \<Rightarrow> int \<Rightarrow> nat list \<Rightarrow> int list list \<Rightarrow> real
    \<Rightarrow> error + (int list list \<times> real)" where
  "reduce_chain distance k m [] s r = Inr (s, r)"
| "reduce_chain distance k m (i # rest) s r =
     ebind (getitem s i) (\<lambda>a.
     ebind (getitem s (i + 1)) (\<lambda>b.
     ebind (unmapped a b distance) (\<lambda>c.
       let s' = s[i + 1 := c]
       in if int (length c) < k
          then Inr (s', r + r * real_of_int (m - (int i + 1)) / real_of_int m)
          else reduce_chain distance k m rest s' r)))"

text \<open>\<^verbatim>\<open>s[-1]\<close>\<close>

definition last_item :: "'a list \<Rightarrow> error + 'a" where
  "last_item s = (if s = [] then Inl IndexError else Inr (last s))"

fun agoras_loop :: "nat \<Rightarrow> local_dist \<Rightarrow> nat \<Rightarrow> int \<Rightarrow> int \<Rightarrow> real \<Rightarrow> rng
    \<Rightarrow> int list result \<times> rng" where
  "agoras_loop 0 distance n k m r g = (Diverged, g)"
| "agoras_loop (Suc fuel) distance n k m r g =
     (case samples (map int [0..<n]) (min (int_of r) (int n)) (nat m) g of
        (Inl e, g') \<Rightarrow> (Err e, g')
      | (Inr s, g') \<Rightarrow>
          (case ebind (reduce_chain distance k m [0..<nat (m - 1)] s r) (\<lambda>(s', r').
                  ebind (last_item s') (\<lambda>l. Inr (l, r'))) of
             Inl e \<Rightarrow> (Err e, g')
           | Inr (l, r') \<Rightarrow>
               if int (length l) > k then agoras_loop fuel distance n k m (r' * (95 / 100)) g'
               else if int (length l) = k then (Ok l, g')
               else agoras_loop fuel distance n k m r' g'))"

definition agoras :: "(real \<Rightarrow> real) \<Rightarrow> nat \<Rightarrow> nat \<Rightarrow> int \<Rightarrow> local_dist \<Rightarrow> rng
    \<Rightarrow> int list result \<times> rng" where
  "agoras lg fuel n k distance g =
     (if k \<le> 0 then (Err ValueError, g)
      else
        let m = \<lceil>real_of_int k * (lg (real_of_int k) + gamma)\<rceil>;
            r = real_of_int k * lg (real_of_int k) + gamma * real_of_int k;
            p = map int [0..<n]
        in if r > real n then (case sample p k g of (x, g') \<Rightarrow> (lift x, g'))
           else agoras_loop fuel distance n k m r g)"

section \<open>The medoid table of the partitional engine\<close>

text \<open>
  \<^verbatim>\<open>_Medoids\<close>: \<open>_n\<close>, \<open>_k\<close>, the generator \<open>_random_swap\<close>, the sorted list \<open>_selected\<close>
  of medoids, the table \<open>_clusters\<close> (for a non-medoid, its nearest and second-nearest
  medoid; \<^verbatim>\<open>None\<close> where nothing was stored yet) and the running \<open>_cost\<close>. The distance
  function is the clusterer's and is passed along.
\<close>

record medoids =
  m_n :: nat
  m_k :: int
  m_random_swap :: shuffled
  m_selected :: "int list"
  m_clusters :: "(int \<times> int) option list"
  m_cost :: real

text \<open>\<^verbatim>\<open>_reset_random_swap\<close>: a new generator \<^verbatim>\<open>_shuffled_tuples(k, n - k)\<close>.\<close>

definition reset_random_swap :: "medoids \<Rightarrow> medoids" where
  "reset_random_swap st = st\<lparr>m_random_swap := shuffled_tuples [m_k st, int (m_n st) - m_k st]\<rparr>"

text \<open>The property \<^verbatim>\<open>_unselected\<close>, as the list the generator produces: it walks
  \<^verbatim>\<open>range(n)\<close> with the next medoid \<open>z\<close> to skip; reading \<^verbatim>\<open>selected[0]\<close> raises IndexError
  when there is no medoid.\<close>

fun unselected_walk :: "int list \<Rightarrow> nat \<Rightarrow> int \<Rightarrow> int list \<Rightarrow> int list" where
  "unselected_walk sel k z [] = []"
| "unselected_walk sel k z (i # rest) =
     (if i = z then
        (if k < length sel then unselected_walk sel (k + 1) (sel ! k) rest
         else unselected_walk sel k (- 1) rest)
      else i # unselected_walk sel k z rest)"

definition unselected :: "int list \<Rightarrow> nat \<Rightarrow> error + int list" where
  "unselected sel n =
     (case sel of
        [] \<Rightarrow> Inl IndexError
      | z # _ \<Rightarrow> Inr (unselected_walk sel 1 z (map int [0..<n])))"

text \<open>\<^verbatim>\<open>_update_clusters(a)\<close>: for every \<open>j\<close> the two smallest pairs
  \<open>(distance(i, j), i)\<close> over the medoids (\<^verbatim>\<open>nsmallest(2, ...)\<close> is the first two of the
  sorted list; unpacking fewer than two raises ValueError). Returns the distances
  yielded and the table.\<close>

fun update_clusters :: "local_dist \<Rightarrow> int list \<Rightarrow> (int \<times> int) option list \<Rightarrow> int list
    \<Rightarrow> error + (real list \<times> (int \<times> int) option list)" where
  "update_clusters distance sel clusters [] = Inr ([], clusters)"
| "update_clusters distance sel clusters (j # a) =
     ebind (traverse (\<lambda>i. ebind (distance i j) (\<lambda>d. Inr (d, i))) sel) (\<lambda>ds.
       case take 2 (sort ds) of
         [(d1, i1), (d2, i2)] \<Rightarrow>
           if i1 = i2 then Inl AssertionError
           else
             ebind (py_setitem clusters j (Some (i1, i2))) (\<lambda>clusters'.
             ebind (update_clusters distance sel clusters' a) (\<lambda>(ds', clusters'').
               Inr (d1 # ds', clusters'')))
       | _ \<Rightarrow> Inl ValueError)"

text \<open>\<^verbatim>\<open>_Medoids.__init__\<close>\<close>

definition medoids_init :: "(real \<Rightarrow> real) \<Rightarrow> nat \<Rightarrow> local_dist \<Rightarrow> nat \<Rightarrow> int \<Rightarrow> rng
    \<Rightarrow> medoids result \<times> rng" where
  "medoids_init lg fuel distance n k g =
     (case agoras lg fuel n k distance g of
        (Diverged, g') \<Rightarrow> (Diverged, g')
      | (Err e, g') \<Rightarrow> (Err e, g')
      | (Ok seed, g') \<Rightarrow>
          (let sel = sort seed;
               clusters = replicate n None
           in (lift (ebind (unselected sel n) (\<lambda>us.
                     ebind (update_clusters distance sel clusters us) (\<lambda>(ds, clusters').
                       Inr \<lparr>m_n = n, m_k = k,
                            m_random_swap = shuffled_tuples [k, int n - k],
                            m_selected = sel, m_clusters = clusters',
                            m_cost = fsum ds\<rparr>))), g')))"

text \<open>\<^verbatim>\<open>_Medoids.clusters\<close>: for every medoid, the non-medoids whose nearest medoid it
  is, and the medoid itself inserted in order.\<close>

definition nearest_medoid :: "(int \<times> int) option list \<Rightarrow> int \<Rightarrow> error + int" where
  "nearest_medoid clusters j =
     ebind (py_getitem clusters j) (\<lambda>c. case c of None \<Rightarrow> Inl TypeError | Some (n1, n2) \<Rightarrow> Inr n1)"

definition cluster_of :: "medoids \<Rightarrow> int \<Rightarrow> error + cluster" where
  "cluster_of st i =
     ebind (unselected (m_selected st) (m_n st)) (\<lambda>us.
     ebind (traverse (\<lambda>j. ebind (nearest_medoid (m_clusters st) j) (\<lambda>n1. Inr (j, n1))) us) (\<lambda>js.
       Inr \<lparr>medoid = i, members = insort i (map fst (filter (\<lambda>(j, n1). n1 = i) js))\<rparr>))"

definition clusters_of :: "medoids \<Rightarrow> error + cluster list" where
  "clusters_of st = traverse (cluster_of st) (m_selected st)"

text \<open>\<^verbatim>\<open>_next_random_swap\<close>: the next tuple \<open>(n_i, h)\<close> of the generator; \<open>h\<close> is moved
  past the medoids. \<open>Stop\<close> is the StopIteration of the exhausted generator.\<close>

definition next_random_swap :: "medoids \<Rightarrow> rng \<Rightarrow> (int \<times> int) step \<times> medoids \<times> rng" where
  "next_random_swap st g =
     (case tuples_next [m_k st, int (m_n st) - m_k st] (m_random_swap st) g of
        (Stop, rs, g') \<Rightarrow> (Stop, st\<lparr>m_random_swap := rs\<rparr>, g')
      | (Raise e, rs, g') \<Rightarrow> (Raise e, st\<lparr>m_random_swap := rs\<rparr>, g')
      | (Yield t, rs, g') \<Rightarrow>
          (case t of
             [n_i, h] \<Rightarrow>
               (let h' = fold (\<lambda>j h. if h \<ge> j then h + 1 else h) (m_selected st) h
                in case py_getitem (m_selected st) n_i of
                     Inl e \<Rightarrow> (Raise e, st\<lparr>m_random_swap := rs\<rparr>, g')
                   | Inr i \<Rightarrow> (Yield (i, h'), st\<lparr>m_random_swap := rs\<rparr>, g'))
           | _ \<Rightarrow> (Raise ValueError, st\<lparr>m_random_swap := rs\<rparr>, g')))"

text \<open>
  The generator \<^verbatim>\<open>calculate_t\<close> of \<^verbatim>\<open>swap\<close>, as the list of the terms it yields and
  the list \<open>fast_updates\<close> it fills. \<open>other_points\<close> is its loop over the non-medoids
  \<open>j \<noteq> h\<close> with the four cases of the swap evaluation; a difference of two
  distances is a rounded difference.
\<close>

fun other_points :: "local_dist \<Rightarrow> (int \<times> int) option list \<Rightarrow> int \<Rightarrow> int \<Rightarrow> int list
    \<Rightarrow> error + (real list \<times> (int \<times> int) list)" where
  "other_points distance clusters i h [] = Inr ([], [])"
| "other_points distance clusters i h (j # rest) =
     (if j = h then other_points distance clusters i h rest
      else
        ebind (py_getitem clusters j) (\<lambda>c.
          case c of
            None \<Rightarrow> Inl TypeError
          | Some (n1, n2) \<Rightarrow>
              ebind (distance j h) (\<lambda>dh.
                if n1 = i then
                  ebind (distance j n2) (\<lambda>d2.
                    if dh \<ge> d2 then
                      ebind (distance j i) (\<lambda>dji.
                      ebind (other_points distance clusters i h rest) (\<lambda>(ts, fast).
                        Inr (mpf_round (d2 - dji) # ts, (j, n2) # fast)))
                    else
                      ebind (distance j i) (\<lambda>dji.
                      ebind (other_points distance clusters i h rest) (\<lambda>(ts, fast).
                        Inr (mpf_round (dh - dji) # ts, (j, h) # fast))))
                else
                  (let k = n1 in
                   ebind (distance j k) (\<lambda>d2.
                     if dh \<ge> d2 then
                       ebind (other_points distance clusters i h rest) (\<lambda>(ts, fast).
                         Inr (ts, (j, k) # fast))
                     else
                       ebind (other_points distance clusters i h rest) (\<lambda>(ts, fast).
                         Inr (mpf_round (dh - d2) # ts, (j, h) # fast)))))))"

definition calculate_t :: "local_dist \<Rightarrow> medoids \<Rightarrow> int \<Rightarrow> int
    \<Rightarrow> error + (real list \<times> (int \<times> int) list)" where
  "calculate_t distance st i h =
     ebind (traverse (\<lambda>j. distance i j) (filter (\<lambda>j. j \<noteq> i) (m_selected st @ [h]))) (\<lambda>ds.
     ebind (min_of ds) (\<lambda>attach.
     ebind (nearest_medoid (m_clusters st) h) (\<lambda>n1.
     ebind (distance h n1) (\<lambda>detach.
     ebind (unselected (m_selected st) (m_n st)) (\<lambda>us.
     ebind (other_points distance (m_clusters st) i h us) (\<lambda>(ts, fast_updates).
       Inr (attach # (- detach) # ts, fast_updates)))))))"

text \<open>The total cost delta \<open>t\<close> a swap of \<open>i\<close> for \<open>h\<close> computes, \<^verbatim>\<open>fsum(calculate_t())\<close>.\<close>

definition swap_delta :: "local_dist \<Rightarrow> medoids \<Rightarrow> int \<Rightarrow> int \<Rightarrow> error + real" where
  "swap_delta distance st i h = ebind (calculate_t distance st i h) (\<lambda>(ts, fast). Inr (fsum ts))"

text \<open>The loop over \<open>fast_updates\<close> of an accepted swap: a point whose recorded medoid
  is the leaving \<open>i\<close> goes to \<open>slow_updates\<close>; for any other the nearest medoid but \<open>m\<close>
  becomes the second-nearest (the \<^verbatim>\<open>assert\<close> fails when there is none).\<close>

fun nearest_but :: "local_dist \<Rightarrow> int list \<Rightarrow> int \<Rightarrow> int \<Rightarrow> (real \<times> int) option
    \<Rightarrow> error + (real \<times> int) option" where
  "nearest_but distance [] m j best = Inr best"
| "nearest_but distance (k # rest) m j best =
     (if k \<noteq> m then
        ebind (distance k j) (\<lambda>d.
          nearest_but distance rest m j
            (case best of
               None \<Rightarrow> Some (d, k)
             | Some (min_d, min_k) \<Rightarrow> if d < min_d then Some (d, k) else Some (min_d, min_k)))
      else nearest_but distance rest m j best)"

fun apply_fast_updates :: "local_dist \<Rightarrow> int list \<Rightarrow> int \<Rightarrow> (int \<times> int) list
    \<Rightarrow> (int \<times> int) option list \<Rightarrow> int list \<Rightarrow> error + ((int \<times> int) option list \<times> int list)" where
  "apply_fast_updates distance sel i [] clusters slow_updates = Inr (clusters, slow_updates)"
| "apply_fast_updates distance sel i ((j, m) # rest) clusters slow_updates =
     (if m = i then apply_fast_updates distance sel i rest clusters (slow_updates @ [j])
      else
        ebind (nearest_but distance sel m j None) (\<lambda>best.
          case best of
            None \<Rightarrow> Inl AssertionError
          | Some (min_d, min_k) \<Rightarrow>
              ebind (py_setitem clusters j (Some (m, min_k))) (\<lambda>clusters'.
                apply_fast_updates distance sel i rest clusters' slow_updates)))"

text \<open>The accepting branch of \<^verbatim>\<open>swap\<close>. \<^verbatim>\<open>self._cost += t\<close> adds two \<^verbatim>\<open>mpf\<close> numbers
  and rounds the sum. \<^verbatim>\<open>selected.index(i)\<close> raises ValueError when \<open>i\<close> is not a medoid;
  \<^verbatim>\<open>bisect.insort\<close> on the sorted list is the ordered insertion.\<close>

definition accept_swap :: "local_dist \<Rightarrow> medoids \<Rightarrow> int \<Rightarrow> int \<Rightarrow> real \<Rightarrow> (int \<times> int) list
    \<Rightarrow> error + medoids" where
  "accept_swap distance st i h t fast_updates =
     (let cost = mpf_round (m_cost st + t) in
      if i \<notin> set (m_selected st) then Inl ValueError
      else
        let sel = insort h (remove1 i (m_selected st)) in
        ebind (apply_fast_updates distance sel i fast_updates (m_clusters st) [i]) (\<lambda>(clusters, slow_updates).
        ebind (update_clusters distance sel clusters slow_updates) (\<lambda>(ds, clusters').
          Inr (reset_random_swap (st\<lparr>m_cost := cost, m_selected := sel, m_clusters := clusters'\<rparr>)))))"

text \<open>\<^verbatim>\<open>_Medoids.swap\<close>: whether the swap was accepted, and the table it leaves.\<close>

definition swap :: "local_dist \<Rightarrow> medoids \<Rightarrow> rng \<Rightarrow> (error + (bool \<times> medoids)) \<times> rng" where
  "swap distance st g =
     (case next_random_swap st g of
        (Stop, st', g') \<Rightarrow> (Inr (False, st'), g')
      | (Raise e, st', g') \<Rightarrow> (Inl e, g')
      | (Yield (i, h), st', g') \<Rightarrow>
          (ebind (calculate_t distance st' i h) (\<lambda>(ts, fast_updates).
             let t = fsum ts in
             if t < 0 then ebind (accept_swap distance st' i h t fast_updates) (\<lambda>st''. Inr (True, st''))
             else Inr (False, st')), g'))"

section \<open>The partitional engine\<close>

text \<open>The \<^verbatim>\<open>while j <= max_neighbours\<close> loop of \<^verbatim>\<open>with_k\<close>: one local search.\<close>

fun local_search :: "nat \<Rightarrow> local_dist \<Rightarrow> real \<Rightarrow> int \<Rightarrow> medoids \<Rightarrow> rng \<Rightarrow> medoids result \<times> rng" where
  "local_search 0 distance max_neighbours j st g = (Diverged, g)"
| "local_search (Suc fuel) distance max_neighbours j st g =
     (if real_of_int j \<le> max_neighbours then
        (case swap distance st g of
           (Inl e, g') \<Rightarrow> (Err e, g')
         | (Inr (True, st'), g') \<Rightarrow> local_search fuel distance max_neighbours 1 st' g'
         | (Inr (False, st'), g') \<Rightarrow> local_search fuel distance max_neighbours (j + 1) st' g')
      else (Ok st, g))"

text \<open>One pass of the loop of a local search, as a relation between its states
  \<open>(j, medoids, random state)\<close>: the swap attempt that the loop makes while
  \<open>j \<le> max_neighbours\<close>.\<close>

inductive search_step :: "local_dist \<Rightarrow> real \<Rightarrow> int \<times> medoids \<times> rng \<Rightarrow> int \<times> medoids \<times> rng \<Rightarrow> bool" where
  accepted: "real_of_int j \<le> max_neighbours \<Longrightarrow> swap distance st g = (Inr (True, st'), g')
     \<Longrightarrow> search_step distance max_neighbours (j, st, g) (1, st', g')"
| rejected: "real_of_int j \<le> max_neighbours \<Longrightarrow> swap distance st g = (Inr (False, st'), g')
     \<Longrightarrow> search_step distance max_neighbours (j, st, g) (j + 1, st', g')"

text \<open>\<^verbatim>\<open>max_neighbours\<close> of \<^verbatim>\<open>with_k\<close>\<close>

definition max_neighbours_of :: "nat \<Rightarrow> int \<Rightarrow> real" where
  "max_neighbours_of n k =
     min (max (125 / 10000 * real_of_int k * real_of_int (int n - k)) 250)
         (real_of_int (k * (int n - k)))"

text \<open>The loop \<^verbatim>\<open>for i in range(num_local)\<close> of \<^verbatim>\<open>with_k\<close>, keeping the medoid table
  of the lowest cost.\<close>

fun local_minima :: "nat \<Rightarrow> (real \<Rightarrow> real) \<Rightarrow> nat \<Rightarrow> local_dist \<Rightarrow> nat \<Rightarrow> int
    \<Rightarrow> medoids option \<Rightarrow> rng \<Rightarrow> medoids option result \<times> rng" where
  "local_minima 0 lg fuel distance n k min_cost_medoids g = (Ok min_cost_medoids, g)"
| "local_minima (Suc num_local) lg fuel distance n k min_cost_medoids g =
     (case medoids_init lg fuel distance n k g of
        (Diverged, g') \<Rightarrow> (Diverged, g')
      | (Err e, g') \<Rightarrow> (Err e, g')
      | (Ok st, g') \<Rightarrow>
          (case local_search fuel distance (max_neighbours_of n k) 1 st g' of
             (Diverged, g'') \<Rightarrow> (Diverged, g'')
           | (Err e, g'') \<Rightarrow> (Err e, g'')
           | (Ok st', g'') \<Rightarrow>
               local_minima num_local lg fuel distance n k
                 (case min_cost_medoids of
                    None \<Rightarrow> Some st'
                  | Some best \<Rightarrow> if m_cost st' < m_cost best then Some st' else Some best) g''))"

text \<open>\<^verbatim>\<open>_Clusterer.with_k\<close>, with \<open>num_local = 2\<close>.\<close>

definition with_k :: "(real \<Rightarrow> real) \<Rightarrow> nat \<Rightarrow> dist \<Rightarrow> nat \<Rightarrow> int list \<Rightarrow> int \<Rightarrow> rng
    \<Rightarrow> cluster list result \<times> rng" where
  "with_k lg fuel d0 n i_to_i0 k g =
     (case local_minima 2 lg fuel (distance_lambda d0 i_to_i0) n k None g of
        (Diverged, g') \<Rightarrow> (Diverged, g')
      | (Err e, g') \<Rightarrow> (Err e, g')
      | (Ok None, g') \<Rightarrow> (Err AttributeError, g')
      | (Ok (Some st), g') \<Rightarrow> (lift (clusters_of st), g'))"

text \<open>
  \<^verbatim>\<open>_Clusterer.without_k\<close>. The recursion into the sub-clusters is bounded by \<open>depth\<close>.
  \<open>split_each\<close> is its loop \<^verbatim>\<open>for i, c in enumerate(clusters)\<close>. The criterion handed
  down is the second component of what \<^verbatim>\<open>should_split\<close> returned, which may be
  \<^verbatim>\<open>None\<close>; calling \<^verbatim>\<open>should_split\<close> on it raises AttributeError.
\<close>

function without_k :: "nat \<Rightarrow> (real \<Rightarrow> real) \<Rightarrow> division \<Rightarrow> nat \<Rightarrow> dist \<Rightarrow> nat \<Rightarrow> int list \<Rightarrow> int option
      \<Rightarrow> cluster list \<Rightarrow> split_criterion option \<Rightarrow> rng \<Rightarrow> int list list result \<times> rng"
  and split_each :: "nat \<Rightarrow> (real \<Rightarrow> real) \<Rightarrow> division \<Rightarrow> nat \<Rightarrow> dist \<Rightarrow> cluster list
      \<Rightarrow> cluster list \<Rightarrow> split_criterion option \<Rightarrow> nat list \<Rightarrow> rng \<Rightarrow> int list list result \<times> rng"
  where
  "without_k 0 lg dv fuel d0 n i_to_i0 medoid0 siblings criterion g = (Diverged, g)"
| "without_k (Suc depth) lg dv fuel d0 n i_to_i0 medoid0 siblings criterion g =
     (if n < 2 then (lift (ebind (py_getitem i_to_i0 0) (\<lambda>x. Inr [[x]])), g)
      else
        case with_k lg fuel d0 n i_to_i0 2 g of
          (Diverged, g') \<Rightarrow> (Diverged, g')
        | (Err e, g') \<Rightarrow> (Err e, g')
        | (Ok clusters, g') \<Rightarrow>
            (case ebind (traverse (\<lambda>c. translate c i_to_i0) clusters) (\<lambda>clusters0.
                    let merged = (medoid0, concat (map members clusters0)) in
                    ebind (case criterion of
                             None \<Rightarrow> Inl AttributeError
                           | Some c \<Rightarrow> should_split dv c siblings merged clusters0 d0) (\<lambda>(split, new_criterion).
                      Inr (clusters0, split, new_criterion))) of
               Inl e \<Rightarrow> (Err e, g')
             | Inr (clusters0, split, new_criterion) \<Rightarrow>
                 if \<not> split then (lift (ebind (traverse (py_getitem i_to_i0) (map int [0..<n])) (\<lambda>c. Inr [c])), g')
                 else split_each depth lg dv fuel d0 siblings clusters0 new_criterion [0..<length clusters] g'))"
| "split_each depth lg dv fuel d0 siblings clusters0 new_criterion [] g = (Ok [], g)"
| "split_each depth lg dv fuel d0 siblings clusters0 new_criterion (i # rest) g =
     (case ebind (getitem clusters0 i) (\<lambda>ci.
             ebind (py_getitem clusters0 (1 - int i)) (\<lambda>d. Inr (ci, d))) of
        Inl e \<Rightarrow> (Err e, g)
      | Inr (ci, d) \<Rightarrow>
          (case without_k depth lg dv fuel d0 (length (members ci)) (members ci) (Some (medoid ci))
                  (siblings @ [d]) new_criterion g of
             (Diverged, g') \<Rightarrow> (Diverged, g')
           | (Err e, g') \<Rightarrow> (Err e, g')
           | (Ok r1, g') \<Rightarrow>
               (case split_each depth lg dv fuel d0 siblings clusters0 new_criterion rest g' of
                  (Diverged, g'') \<Rightarrow> (Diverged, g'')
                | (Err e, g'') \<Rightarrow> (Err e, g'')
                | (Ok r2, g'') \<Rightarrow> (Ok (r1 @ r2), g''))))"
  by pat_completeness auto
termination
  by (relation "inv_image (less_than <*lex*> less_than)
        (\<lambda>x. case x of
           Inl (depth, lg, dv, fuel, d0, n, i_to_i0, medoid0, siblings, criterion, g) \<Rightarrow> (2 * depth, 0)
         | Inr (depth, lg, dv, fuel, d0, siblings, clusters0, new_criterion, rest, g) \<Rightarrow>
             (2 * depth + 1, length rest))") auto

section \<open>The entry point of the partitional engine\<close>

text \<open>\<^verbatim>\<open>_components(clusters, n)\<close>: cluster \<open>i\<close> writes \<open>i + 1\<close> at the positions of its
  members.\<close>

fun assign_component :: "nat list \<Rightarrow> nat \<Rightarrow> int list \<Rightarrow> error + nat list" where
  "assign_component cs component_index [] = Inr cs"
| "assign_component cs component_index (j # c) =
     ebind (py_setitem cs j component_index) (\<lambda>cs'. assign_component cs' component_index c)"

fun components_from :: "nat list \<Rightarrow> (nat \<times> int list) list \<Rightarrow> error + nat list" where
  "components_from cs [] = Inr cs"
| "components_from cs ((i, c) # rest) =
     ebind (assign_component cs (i + 1) c) (\<lambda>cs'. components_from cs' rest)"

definition components :: "int list list \<Rightarrow> nat \<Rightarrow> error + nat list" where
  "components clusters n = components_from (replicate n 0) (enumerate 0 clusters)"

text \<open>
  The argument \<open>k\<close> of \<^verbatim>\<open>optimize\<close>: an integer; a float (equal to 1 or not, never an
  \<^verbatim>\<open>int\<close>); a pair of a criterion constructor and its options, given by what the
  constructor returns (\<open>None\<close> when that is no \<^verbatim>\<open>SplitCriterion\<close>, so that the
  \<^verbatim>\<open>assert\<close> fails); or anything else.
\<close>

datatype k_arg = KInt int | KFloat real | KPair "split_criterion option" | KOther

text \<open>What an entry point returns: a list of clusters of points, or the array of
  component ids.\<close>

datatype 'a clustering = ClusterLists "'a list list" | ComponentArray "nat list"

text \<open>\<^verbatim>\<open>k == 1\<close>\<close>

fun is_one :: "k_arg \<Rightarrow> bool" where
  "is_one (KInt k) = (k = 1)"
| "is_one (KFloat x) = (x = 1)"
| "is_one _ = False"

text \<open>The body of the \<^verbatim>\<open>try\<close> block of \<^verbatim>\<open>optimize\<close>, after \<^verbatim>\<open>random.seed(seed)\<close>.
  \<^verbatim>\<open>sorted(clusters, key=lambda c: c[0])\<close> raises IndexError on an empty cluster; the
  nested \<^verbatim>\<open>map\<close> of mode \<^verbatim>\<open>clusters\<close> is evaluated when it is built.\<close>

definition first_item :: "'a list \<Rightarrow> error + 'a" where
  "first_item c = (case c of [] \<Rightarrow> Inl IndexError | x # _ \<Rightarrow> Inr x)"

definition render :: "'a list \<Rightarrow> string \<Rightarrow> int list list \<Rightarrow> error + 'a clustering" where
  "render p mode clusters =
     ebind (traverse first_item clusters) (\<lambda>keys.
       let clusters = map snd (sort_key fst (zip keys clusters)) in
       if mode = ''clusters'' then
         ebind (traverse (traverse (py_getitem p)) clusters) (\<lambda>cs. Inr (ClusterLists cs))
       else if mode = ''components'' then
         ebind (components clusters (length p)) (\<lambda>cs. Inr (ComponentArray cs))
       else Inl ValueError)"

definition optimize_body :: "(real \<Rightarrow> real) \<Rightarrow> division \<Rightarrow> nat \<Rightarrow> nat \<Rightarrow> 'a list \<Rightarrow> k_arg \<Rightarrow> dist
    \<Rightarrow> string \<Rightarrow> rng \<Rightarrow> 'a clustering result \<times> rng" where
  "optimize_body lg dv depth fuel p k d0 mode g =
     (let n = length p; i_to_i0 = map int [0..<n] in
      case (case k of
              KPair made \<Rightarrow>
                (case made of
                   None \<Rightarrow> (Err AssertionError, g)
                 | Some criterion \<Rightarrow> without_k depth lg dv fuel d0 n i_to_i0 None [] (Some criterion) g)
            | KInt k' \<Rightarrow>
                (case with_k lg fuel d0 n i_to_i0 k' g of
                   (Ok cs, g') \<Rightarrow> (Ok (map members cs), g')
                 | (Err e, g') \<Rightarrow> (Err e, g')
                 | (Diverged, g') \<Rightarrow> (Diverged, g'))
            | _ \<Rightarrow> (Err ValueError, g)) of
        (Ok clusters, g') \<Rightarrow> (lift (render p mode clusters), g')
      | (Err e, g') \<Rightarrow> (Err e, g')
      | (Diverged, g') \<Rightarrow> (Diverged, g'))"

text \<open>
  \<^verbatim>\<open>optimize(p, k, distances, mode, seed, granularity)\<close>. \<open>seed_state\<close> is the state
  \<^verbatim>\<open>random.seed(seed)\<close> installs. \<^verbatim>\<open>random_state = random.getstate()\<close> is the incoming
  \<open>g\<close>, and the \<^verbatim>\<open>finally\<close> clause puts it back when the body returns or raises; a body
  that does not end never reaches it. \<open>granularity\<close> is not read.
\<close>

definition optimize :: "(real \<Rightarrow> real) \<Rightarrow> division \<Rightarrow> (int \<Rightarrow> rng) \<Rightarrow> nat \<Rightarrow> nat
    \<Rightarrow> 'a list \<Rightarrow> k_arg \<Rightarrow> dist \<Rightarrow> string \<Rightarrow> int \<Rightarrow> rng \<Rightarrow> 'a clustering result \<times> rng" where
  "optimize lg dv seed_state depth fuel p k d0 mode seed g =
     (if is_one k then (Ok (ClusterLists [p]), g)
      else
        let random_state = g in
        case optimize_body lg dv depth fuel p k d0 mode (seed_state seed) of
          (Diverged, g') \<Rightarrow> (Diverged, g')
        | (r, g') \<Rightarrow> (r, random_state))"

text \<open>The cost delta \<open>t\<close> of the swap that \<^verbatim>\<open>swap\<close> evaluates in a given state: the
  proposal \<open>(i, h)\<close> of \<^verbatim>\<open>_next_random_swap\<close> and \<^verbatim>\<open>fsum(calculate_t())\<close> for it; \<open>None\<close>
  when no swap is proposed or its evaluation raises.\<close>

definition proposed_delta :: "local_dist \<Rightarrow> medoids \<Rightarrow> rng \<Rightarrow> real option" where
  "proposed_delta distance st g =
     (case next_random_swap st g of
        (Yield (i, h), st', g') \<Rightarrow>
          (case swap_delta distance st' i h of Inl e \<Rightarrow> None | Inr t \<Rightarrow> Some t)
      | (Stop, st', g') \<Rightarrow> None
      | (Raise e, st', g') \<Rightarrow> None)"

section \<open>The heap of the agglomerative engine\<close>

text \<open>
  A heap entry is the tuple \<open>(distance, pair-identifier, pair of points)\<close>; Python
  compares the tuples lexicographically, which is the order of the product type. The
  list \<^verbatim>\<open>where\<close> maps a pair-identifier to the heap slot of its entry; it is called
  \<open>whr\<close> here. The heap functions of \<^verbatim>\<open>agglomerate\<close> change both lists in place and are
  modelled as returning both; writing \<^verbatim>\<open>where[p]\<close> for an identifier beyond the list
  raises IndexError.
\<close>

type_synonym 'u entry = "real \<times> nat \<times> 'u"

definition ident :: "'u entry \<Rightarrow> nat" where
  "ident xp = fst (snd xp)"

text \<open>The two closing statements of both shift functions:
  \<^verbatim>\<open>heap[i] = xp; where[p] = i\<close>.\<close>

definition place :: "'u entry \<Rightarrow> nat \<Rightarrow> 'u entry list \<Rightarrow> nat list
    \<Rightarrow> error + ('u entry list \<times> nat list)" where
  "place xp i heap whr =
     (if ident xp < length whr then Inr (heap[i := xp], whr[ident xp := i]) else Inl IndexError)"

text \<open>The \<^verbatim>\<open>while j <= e\<close> loop of \<^verbatim>\<open>shiftdown\<close>. Every slot it reads is at most
  \<open>e = len(heap) - 1\<close>.\<close>

function shiftdown_loop :: "'u::linorder entry \<Rightarrow> nat \<Rightarrow> nat \<Rightarrow> nat \<Rightarrow> 'u entry list \<Rightarrow> nat list
    \<Rightarrow> error + ('u entry list \<times> nat list)" where
  "shiftdown_loop xp e i j heap whr =
     (if j \<le> e then
        (let j = (if j < e \<and> heap ! j > heap ! (j + 1) then j + 1 else j) in
         if xp \<le> heap ! j then place xp i heap whr
         else
           (let pp = ident (heap ! j) in
            if pp < length whr
            then shiftdown_loop xp e j (2 * j + 1) (heap[i := heap ! j]) (whr[pp := i])
            else Inl IndexError))
      else place xp i heap whr)"
  by pat_completeness auto
termination
  by (relation "measure (\<lambda>(xp, e, i, j, heap, whr). Suc e - j)") auto

declare shiftdown_loop.simps [simp del]

text \<open>\<^verbatim>\<open>shiftdown(s, heap, where)\<close>. For an empty heap Python's \<open>e\<close> is \<open>-1\<close> and the
  function returns at once, as it does here with \<open>e = 0\<close>.\<close>

definition shiftdown :: "nat \<Rightarrow> 'u::linorder entry list \<Rightarrow> nat list
    \<Rightarrow> error + ('u entry list \<times> nat list)" where
  "shiftdown s heap whr =
     (let e = length heap - 1; i = s; j = 2 * i + 1 in
      if j > e then Inr (heap, whr)
      else shiftdown_loop (heap ! i) e i j heap whr)"

text \<open>The \<^verbatim>\<open>while j >= 0\<close> loop of \<^verbatim>\<open>shiftup\<close>, where \<open>j = (i + 1) // 2 - 1\<close> is
  negative exactly when \<open>i = 0\<close>.\<close>

function shiftup_loop :: "'u::linorder entry \<Rightarrow> nat \<Rightarrow> 'u entry list \<Rightarrow> nat list
    \<Rightarrow> error + ('u entry list \<times> nat list)" where
  "shiftup_loop xp i heap whr =
     (if i = 0 then place xp i heap whr
      else
        (let j = (i + 1) div 2 - 1 in
         if heap ! j \<le> xp then place xp i heap whr
         else
           (let pp = ident (heap ! j) in
            if pp < length whr
            then shiftup_loop xp j (heap[i := heap ! j]) (whr[pp := i])
            else Inl IndexError)))"
  by pat_completeness auto
termination
  by (relation "measure (\<lambda>(xp, i, heap, whr). i)") auto

declare shiftup_loop.simps [simp del]

text \<open>\<^verbatim>\<open>shiftup(s, heap, where)\<close>: returns at once for \<open>s = 0\<close>; reading \<^verbatim>\<open>heap[s]\<close>
  beyond the heap raises IndexError.\<close>

definition shiftup :: "nat \<Rightarrow> 'u::linorder entry list \<Rightarrow> nat list
    \<Rightarrow> error + ('u entry list \<times> nat list)" where
  "shiftup s heap whr =
     (if s = 0 then Inr (heap, whr)
      else ebind (getitem heap s) (\<lambda>xp. shiftup_loop xp s heap whr))"

text \<open>\<^verbatim>\<open>update(s, xp, heap, where)\<close>\<close>

definition update :: "nat \<Rightarrow> 'u::linorder entry \<Rightarrow> 'u entry list \<Rightarrow> nat list
    \<Rightarrow> error + ('u entry list \<times> nat list)" where
  "update s xp heap whr =
     ebind (getitem heap s) (\<lambda>xxpp.
       if xp = xxpp then Inl AssertionError
       else if xp > xxpp then shiftdown s (heap[s := xp]) whr
       else shiftup s (heap[s := xp]) whr)"

text \<open>\<^verbatim>\<open>remove(s, heap, where)\<close>: the new heap (which the caller assigns) and
  \<^verbatim>\<open>where\<close>. On an empty heap \<^verbatim>\<open>heap[-1]\<close> raises IndexError.\<close>

definition remove :: "nat \<Rightarrow> 'u::linorder entry list \<Rightarrow> nat list
    \<Rightarrow> error + ('u entry list \<times> nat list)" where
  "remove s heap whr =
     (if heap = [] then Inl IndexError
      else if s = length heap - 1 then Inr (butlast heap, whr)
      else
        (let xxpp = last heap; pp = ident xxpp; heap = butlast heap in
         if pp < length whr then update s xxpp heap (whr[pp := s]) else Inl IndexError))"

text \<open>The heap property, and the correspondence of the position index with the heap:
  the slot of every entry is what \<^verbatim>\<open>where\<close> holds for its identifier.\<close>

definition heap_property :: "'u::linorder entry list \<Rightarrow> bool" where
  "heap_property heap =
     (\<forall>i < length heap.
        (2 * i + 1 < length heap \<longrightarrow> heap ! i \<le> heap ! (2 * i + 1))
      \<and> (2 * i + 2 < length heap \<longrightarrow> heap ! i \<le> heap ! (2 * i + 2)))"

definition position_index :: "'u entry list \<Rightarrow> nat list \<Rightarrow> bool" where
  "position_index heap whr =
     (\<forall>s < length heap. ident (heap ! s) < length whr \<and> whr ! ident (heap ! s) = s)"

section \<open>Loop invariants of the heap functions\<close>

text \<open>The position index seen from inside a shift loop: every slot but the one being
  filled, \<open>i\<close>, holds an entry whose identifier \<^verbatim>\<open>where\<close> maps to that slot.\<close>

definition pos_except :: "nat \<Rightarrow> 'u entry list \<Rightarrow> nat list \<Rightarrow> bool" where
  "pos_except i h w = (\<forall>t < length h. t \<noteq> i \<longrightarrow> ident (h ! t) < length w \<and> w ! ident (h ! t) = t)"

text \<open>The parent of a slot, and what holds of the heap while \<^verbatim>\<open>shiftdown\<close> and
  \<^verbatim>\<open>shiftup\<close> carry the entry \<open>xp\<close> to its slot: every parent-child pair is ordered
  except those at the hole \<open>i\<close>, and the neighbours of the hole are ordered among
  themselves and with \<open>xp\<close>.\<close>

definition parent :: "nat \<Rightarrow> nat" where
  "parent c = (c - 1) div 2"

definition down_inv :: "'u::linorder entry \<Rightarrow> 'u entry list \<Rightarrow> nat \<Rightarrow> bool" where
  "down_inv xp h i =
     ((\<forall>c. 0 < c \<and> c < length h \<and> parent c \<noteq> i \<longrightarrow> h ! parent c \<le> h ! c)
      \<and> (0 < i \<longrightarrow> h ! parent i \<le> xp)
      \<and> (0 < i \<longrightarrow> (\<forall>c. 0 < c \<and> c < length h \<and> parent c = i \<longrightarrow> h ! parent i \<le> h ! c)))"

definition up_inv :: "'u::linorder entry \<Rightarrow> 'u entry list \<Rightarrow> nat \<Rightarrow> bool" where
  "up_inv xp h i =
     ((\<forall>c. 0 < c \<and> c < length h \<and> c \<noteq> i \<longrightarrow> h ! parent c \<le> h ! c)
      \<and> (\<forall>c. 0 < c \<and> c < length h \<and> parent c = i \<longrightarrow> xp \<le> h ! c)
      \<and> (0 < i \<longrightarrow> (\<forall>c. 0 < c \<and> c < length h \<and> parent c = i \<longrightarrow> h ! parent i \<le> h ! c)))"

section \<open>The agglomerative engine\<close>

text \<open>
  The merge criteria: the base class \<^verbatim>\<open>MergeCriterion\<close>, whose \<^verbatim>\<open>save_and_merge\<close> raises
  NotImplementedError and whose \<^verbatim>\<open>best\<close> returns its argument, and the Dunn criterion.
  The argument \<open>k\<close> of \<^verbatim>\<open>agglomerate\<close> is an integer, or a pair of a criterion
  constructor and its options (\<open>None\<close> when what it constructs is no \<^verbatim>\<open>MergeCriterion\<close>,
  so that the \<^verbatim>\<open>assert\<close> fails), or anything else.
\<close>

datatype merge_criterion = MergeCriterion | DunnMergeCriterion dunn_criterion

datatype merge_factory = MakeMergeCriterion | MakeDunnMergeCriterion "real option"

datatype k_merge = MInt int | MPair "merge_factory option" | MOther

text \<open>\<^verbatim>\<open>k[0](triangular_distance_matrix, n, **k[1])\<close>\<close>

fun make_criterion :: "merge_factory \<Rightarrow> real list \<Rightarrow> nat \<Rightarrow> merge_criterion" where
  "make_criterion MakeMergeCriterion ds n = MergeCriterion"
| "make_criterion (MakeDunnMergeCriterion limit) ds n = DunnMergeCriterion (dunn_init ds n limit)"

fun criterion_save_and_merge :: "merge_criterion \<Rightarrow> clusters \<Rightarrow> nat \<Rightarrow> nat \<Rightarrow> real
    \<Rightarrow> error + (bool \<times> merge_criterion)" where
  "criterion_save_and_merge MergeCriterion cl i j d = Inl NotImplementedError"
| "criterion_save_and_merge (DunnMergeCriterion c) cl i j d =
     ebind (save_and_merge c cl i j d) (\<lambda>(proceed, c'). Inr (proceed, DunnMergeCriterion c'))"

text \<open>The state of the loop of \<^verbatim>\<open>reduce\<close>: the heap, \<^verbatim>\<open>where\<close>, the clusters, the criterion
  (\<open>None\<close> for a fixed \<open>k\<close>), the list \<open>dominant\<close> (\<open>None\<close> outside mode
  \<^verbatim>\<open>dominant\<close>) and \<open>n_clusters\<close>.\<close>

record 'u agg =
  a_heap :: "'u entry list"
  a_whr :: "nat list"
  a_clusters :: clusters
  a_criterion :: "merge_criterion option"
  a_dominant :: "nat option list option"
  a_n_clusters :: int

text \<open>The truth value of \<^verbatim>\<open>clusters[r]\<close>: a list that is not empty. The list
  \<open>clusters\<close> has one slot for each of the \<open>n\<close> points, so the slot \<open>r < n\<close> exists.\<close>

definition is_unmerged :: "clusters \<Rightarrow> nat \<Rightarrow> bool" where
  "is_unmerged cl r = (case cl ! r of None \<Rightarrow> False | Some xs \<Rightarrow> xs \<noteq> [])"

text \<open>\<^verbatim>\<open>unmerged_pairs(i, j, n)\<close>, as the list the generator produces.\<close>

definition unmerged_pairs :: "clusters \<Rightarrow> nat \<Rightarrow> nat \<Rightarrow> nat \<Rightarrow> nat list" where
  "unmerged_pairs cl i j n =
     map (\<lambda>r. index i r) (filter (\<lambda>r. r \<noteq> j \<and> is_unmerged cl r) [0..<i])
     @ map (\<lambda>r. index r i) (filter (\<lambda>r. r \<noteq> j \<and> is_unmerged cl r) [i + 1..<n])"

text \<open>The loop \<^verbatim>\<open>for a, b in zip(unmerged_pairs(i, j, n), unmerged_pairs(j, i, n))\<close>: the
  entry of the pair \<open>b\<close> is removed, and the entry of the pair \<open>a\<close> takes its distance
  when that is smaller.\<close>

fun relink :: "(nat \<times> nat) list \<Rightarrow> 'u::linorder entry list \<Rightarrow> nat list
    \<Rightarrow> error + ('u entry list \<times> nat list)" where
  "relink [] heap whr = Inr (heap, whr)"
| "relink ((a, b) # rest) heap whr =
     ebind (getitem whr b) (\<lambda>sb.
     ebind (getitem heap sb) (\<lambda>(y, py, u).
     ebind (remove sb heap whr) (\<lambda>(heap, whr).
     ebind (getitem whr a) (\<lambda>sa.
     ebind (getitem heap sa) (\<lambda>(x, px, u').
       if y < x then ebind (update sa (y, px, u) heap whr) (\<lambda>(heap, whr). relink rest heap whr)
       else relink rest heap whr)))))"

text \<open>The block \<^verbatim>\<open>if dominant:\<close> of the loop; \<^verbatim>\<open>len(None)\<close> raises TypeError.\<close>

definition cluster_len :: "clusters \<Rightarrow> nat \<Rightarrow> error + nat" where
  "cluster_len cl r =
     ebind (getitem cl r) (\<lambda>c. case c of None \<Rightarrow> Inl TypeError | Some xs \<Rightarrow> Inr (length xs))"

definition update_dominant :: "nat option list option \<Rightarrow> clusters \<Rightarrow> nat \<Rightarrow> nat
    \<Rightarrow> error + nat option list option" where
  "update_dominant dominant cl i j =
     (case dominant of
        None \<Rightarrow> Inr None
      | Some dominant0 \<Rightarrow>
          if dominant0 = [] then Inr (Some dominant0)
          else
            ebind (cluster_len cl j) (\<lambda>lj.
            ebind (cluster_len cl i) (\<lambda>li.
            ebind (if lj > li then ebind (getitem dominant0 j) (\<lambda>dj. if i < length dominant0 then Inr (dominant0[i := dj]) else Inl IndexError)
                   else Inr dominant0) (\<lambda>dominant0.
              if j < length dominant0 then Inr (Some (dominant0[j := None])) else Inl IndexError))))"

text \<open>The body of the loop from \<^verbatim>\<open>heap = remove(where[p], heap, where)\<close> to
  \<^verbatim>\<open>clusters[j] = None\<close>: the merge of cluster \<open>j\<close> into cluster \<open>i\<close>.\<close>

definition merge_pair :: "nat \<Rightarrow> 'u::linorder agg \<Rightarrow> nat \<Rightarrow> nat \<Rightarrow> nat \<Rightarrow> error + 'u agg" where
  "merge_pair n st p i j =
     (let cl = a_clusters st in
      ebind (getitem (a_whr st) p) (\<lambda>sp.
      ebind (remove sp (a_heap st) (a_whr st)) (\<lambda>(heap, whr).
      ebind (relink (zip (unmerged_pairs cl i j n) (unmerged_pairs cl j i n)) heap whr) (\<lambda>(heap, whr).
      ebind (update_dominant (a_dominant st) cl i j) (\<lambda>dominant.
      ebind (getitem cl i) (\<lambda>ci. case ci of None \<Rightarrow> Inl AttributeError | Some xs \<Rightarrow>
      ebind (getitem cl j) (\<lambda>cj. case cj of None \<Rightarrow> Inl TypeError | Some ys \<Rightarrow>
        Inr (st\<lparr>a_heap := heap, a_whr := whr, a_clusters := cl[i := Some (xs @ ys), j := None],
                a_dominant := dominant\<rparr>))))))))"

text \<open>The \<^verbatim>\<open>while len(heap) > 0 and n_clusters > n_clusters_target\<close> loop of \<^verbatim>\<open>reduce\<close>.
  A criterion that refuses the merge ends the loop (\<^verbatim>\<open>break\<close>).\<close>

function agglomerate_loop :: "(nat \<times> nat) list \<Rightarrow> nat \<Rightarrow> int \<Rightarrow> 'u::linorder agg \<Rightarrow> error + 'u agg" where
  "agglomerate_loop lookup n n_clusters_target st =
     (if length (a_heap st) > 0 \<and> a_n_clusters st > n_clusters_target then
        (case hd (a_heap st) of (d, p, u) \<Rightarrow>
           (case getitem lookup p of
              Inl e \<Rightarrow> Inl e
            | Inr (i0, j0) \<Rightarrow>
                (let i = (if i0 > j0 then j0 else i0); j = (if i0 > j0 then i0 else j0) in
                 case (case a_criterion st of
                         None \<Rightarrow> Inr (True, None)
                       | Some c \<Rightarrow> ebind (criterion_save_and_merge c (a_clusters st) i j d)
                                    (\<lambda>(proceed, c'). Inr (proceed, Some c'))) of
                   Inl e \<Rightarrow> Inl e
                 | Inr (proceed, criterion) \<Rightarrow>
                     if \<not> proceed then Inr (st\<lparr>a_criterion := criterion\<rparr>)
                     else
                       (case merge_pair n (st\<lparr>a_criterion := criterion\<rparr>) p i j of
                          Inl e \<Rightarrow> Inl e
                        | Inr st' \<Rightarrow>
                            agglomerate_loop lookup n n_clusters_target
                              (st'\<lparr>a_n_clusters := a_n_clusters st - 1\<rparr>)))))
      else Inr st)"
  by pat_completeness auto
termination
  by (relation "measure (\<lambda>(lookup, n, n_clusters_target, st). nat (a_n_clusters st - n_clusters_target))")
    auto

declare agglomerate_loop.simps [simp del]

text \<open>The loop \<^verbatim>\<open>for s in range(len(heap) // 2 - 1, -1, -1): shiftdown(s, heap, where)\<close>\<close>

fun heapify :: "nat list \<Rightarrow> 'u::linorder entry list \<Rightarrow> nat list \<Rightarrow> error + ('u entry list \<times> nat list)" where
  "heapify [] heap whr = Inr (heap, whr)"
| "heapify (s # rest) heap whr = ebind (shiftdown s heap whr) (\<lambda>(heap, whr). heapify rest heap whr)"

text \<open>
  What \<open>result\<close> holds when the loop has ended: the clusters, the list \<open>dominant\<close>, or
  the partition \<^verbatim>\<open>criterion.best\<close> returned. \<^verbatim>\<open>[sorted(c) for c in result if c]\<close> raises
  TypeError on \<^verbatim>\<open>None\<close> in place of a list and on a non-zero integer in place of a
  cluster.
\<close>

datatype agg_result = ResClusters clusters | ResDominant "nat option list" | ResPartition "nat list list option"

fun criterion_best :: "merge_criterion \<Rightarrow> agg_result \<Rightarrow> agg_result" where
  "criterion_best MergeCriterion result = result"
| "criterion_best (DunnMergeCriterion c) result = ResPartition (dunn_best c)"

fun sorted_clusters :: "agg_result \<Rightarrow> error + nat list list" where
  "sorted_clusters (ResClusters cl) = Inr (map sort (live_clusters cl))"
| "sorted_clusters (ResDominant dominant0) =
     (if \<exists>v \<in> set dominant0. (case v of None \<Rightarrow> False | Some r \<Rightarrow> r \<noteq> 0) then Inl TypeError else Inr [])"
| "sorted_clusters (ResPartition None) = Inl TypeError"
| "sorted_clusters (ResPartition (Some part)) = Inr (map sort (filter (\<lambda>c. c \<noteq> []) part))"

text \<open>The end of \<^verbatim>\<open>reduce\<close>, from \<^verbatim>\<open>if criterion:\<close> on.\<close>

definition finish :: "'a list \<Rightarrow> string \<Rightarrow> nat \<Rightarrow> 'u agg \<Rightarrow> error + 'a clustering" where
  "finish points mode n st =
     (let result = (case a_dominant st of None \<Rightarrow> ResClusters (a_clusters st) | Some dominant0 \<Rightarrow> ResDominant dominant0);
          result = (case a_criterion st of None \<Rightarrow> result | Some c \<Rightarrow> criterion_best c result)
      in ebind (sorted_clusters result) (\<lambda>cs.
           let result = sort_key hd cs in
           if mode = ''components'' then
             ebind (components (map (map int) result) n) (\<lambda>c. Inr (ComponentArray c))
           else if mode = ''clusters'' then
             ebind (traverse (traverse (getitem points)) result) (\<lambda>c. Inr (ClusterLists c))
           else Inl ValueError))"

text \<open>\<^verbatim>\<open>agglomerate(points, k, distances, mode)\<close>, that is, \<^verbatim>\<open>reduce()\<close>; the provider
  \<^verbatim>\<open>distances\<close> is called \<open>provided\<close> here.\<close>

definition agglomerate :: "'a::linorder list \<Rightarrow> k_merge \<Rightarrow> provider \<Rightarrow> string \<Rightarrow> error + 'a clustering" where
  "agglomerate points k provided mode =
     (let clusters = map (\<lambda>i. Some [i]) [0..<length points];
          n = length points
      in
      ebind (matrix provided) (\<lambda>triangular_distance_matrix.
      ebind (case k of
               MPair made \<Rightarrow>
                 (case made of
                    None \<Rightarrow> Inl AssertionError
                  | Some f \<Rightarrow> Inr (Some (make_criterion f triangular_distance_matrix n), 1))
             | MInt k' \<Rightarrow> Inr (None, k')
             | MOther \<Rightarrow> Inl ValueError) (\<lambda>(criterion, n_clusters_target).
        let pairs = concat (map (\<lambda>i. map (\<lambda>j. (points ! i, points ! j)) [0..<i]) [0..<n]);
            lookup = concat (map (\<lambda>i. map (\<lambda>j. (i, j)) [0..<i]) [0..<n]);
            whr = [0..<length triangular_distance_matrix];
            heap = zip triangular_distance_matrix (zip whr pairs)
        in
        ebind (heapify (rev [0..<length heap div 2]) heap whr) (\<lambda>(heap, whr).
        ebind (if mode = ''dominant'' then Inr (Some (map Some [0..<n]))
               else if mode = ''clusters'' \<or> mode = ''components'' then Inr None
               else Inl ValueError) (\<lambda>dominant.
        ebind (agglomerate_loop lookup n n_clusters_target
                 \<lparr>a_heap = heap, a_whr = whr, a_clusters = clusters, a_criterion = criterion,
                  a_dominant = dominant, a_n_clusters = int n\<rparr>) (\<lambda>st.
          finish points mode n st))))))"

section \<open>Invariant of the merge loop\<close>

text \<open>The number \<open>(a - 1) * a div 2\<close> of pairs \<open>(i, j)\<close> with \<open>j < i < a\<close>: the length of the
  triangular distance matrix of \<open>a\<close> points, and \<^verbatim>\<open>_index(a, 0)\<close>.\<close>

definition tri :: "nat \<Rightarrow> nat" where "tri a = ((a - 1) * a) div 2"

text \<open>The list \<^verbatim>\<open>lookup = [(i, j) for i in range(n) for j in range(i)]\<close>.\<close>

definition lookup_of :: "nat \<Rightarrow> (nat \<times> nat) list" where
  "lookup_of n = concat (map (\<lambda>i. map (\<lambda>j. (i, j)) [0..<i]) [0..<n])"

text \<open>The pair numbers that are in the heap.\<close>

definition ids :: "'u entry list \<Rightarrow> nat set" where
  "ids h = ident ` set h"

text \<open>The number of the pair of two clusters, in either order: what \<^verbatim>\<open>unmerged_pairs\<close>
  computes with \<^verbatim>\<open>_index(i, r)\<close> for \<open>r < i\<close> and with \<^verbatim>\<open>_index(r, i)\<close> for \<open>r > i\<close>.\<close>

definition pid :: "nat \<Rightarrow> nat \<Rightarrow> nat" where
  "pid x y = index (max x y) (min x y)"

text \<open>The slots of \<^verbatim>\<open>clusters\<close> that still hold a cluster, and the pair numbers of a set
  of slots.\<close>

definition live :: "clusters \<Rightarrow> nat set" where
  "live cl = {r. r < length cl \<and> is_unmerged cl r}"

definition pairs_of :: "nat set \<Rightarrow> nat set" where
  "pairs_of L = {index a b | a b. b < a \<and> a \<in> L \<and> b \<in> L}"

text \<open>The points of one slot and of all slots, as multisets.\<close>

definition content :: "nat list option \<Rightarrow> nat multiset" where
  "content c = mset (case c of None \<Rightarrow> [] | Some xs \<Rightarrow> xs)"

definition mass :: "clusters \<Rightarrow> nat multiset" where
  "mass cl = sum_list (map content cl)"

text \<open>
  What holds each time the \<^verbatim>\<open>while\<close> loop of \<^verbatim>\<open>reduce\<close> tests its condition: \<^verbatim>\<open>where\<close>
  has one entry per pair and locates every heap entry, the heap holds exactly the
  pairs of the clusters not yet merged away, \<^verbatim>\<open>n_clusters\<close> counts these clusters, no
  slot holds an empty list, and the slots hold every point once.
\<close>

definition agg_inv :: "nat \<Rightarrow> 'u agg \<Rightarrow> bool" where
  "agg_inv n st =
     (length (a_clusters st) = n \<and> length (a_whr st) = tri n
      \<and> position_index (a_heap st) (a_whr st)
      \<and> ids (a_heap st) = pairs_of (live (a_clusters st))
      \<and> a_n_clusters st = int (card (live (a_clusters st)))
      \<and> (\<forall>r < n. a_clusters st ! r \<noteq> Some [])
      \<and> mass (a_clusters st) = mset [0..<n])"

section \<open>Distance providers: the matrix\<close>

text \<open>
  Claim C7. \<^verbatim>\<open>matrix()\<close> of the precomputed provider returns the stored triangular
  array, and the distance of a pair \<open>(i, j)\<close> with \<open>i > j\<close> is the entry at index
  \<open>j + i * (i - 1) / 2\<close> of that array, which is the entry \<^verbatim>\<open>distance(i, j)\<close> (in either
  argument order) reads; \<^verbatim>\<open>matrix()\<close> of the lazy provider raises ValueError whatever
  its dictionary holds.
\<close>

theorem matrix_precomputed_lazy:
  "matrix (PrecomputedDistances ds) = Inr ds
   \<and> (j < i \<longrightarrow> index i j = j + i * (i - 1) div 2
        \<and> precomputed_distance ds i j = getitem ds (j + i * (i - 1) div 2)
        \<and> precomputed_distance ds j i = getitem ds (j + i * (i - 1) div 2)
        \<and> (j + i * (i - 1) div 2 < length ds \<longrightarrow>
             matrix (PrecomputedDistances ds) = Inr ds
             \<and> precomputed_distance ds i j = Inr (ds ! (j + i * (i - 1) div 2))))
   \<and> matrix (LazyDistances computed) = Inl ValueError"
  by (simp add: precomputed_distance_def index_def getitem_def max_def min_def mult.commute)

theorem matrix_precomputed_lazy_witness:
  "matrix (PrecomputedDistances [1, 5, 4]) = Inr [1, 5, 4]
   \<and> precomputed_distance [1, 5, 4] 2 1 = Inr 4
   \<and> precomputed_distance [1, 5, 4] 1 2 = Inr 4
   \<and> matrix (LazyDistances Map.empty) = Inl ValueError"
  using matrix_precomputed_lazy [of "[1, 5, 4]" 1 2 Map.empty]
  by (simp add: getitem_def)

section \<open>Floating-point rounding: monotone and idempotent\<close>

lemma powr_powi: "2 powr (of_int k) = (2::real) powi k"
  by (simp add: powr_real_of_int')

lemma exponent_bounds:
  assumes "0 < x"
  shows "2 powi (exponent x) \<le> x" "x < 2 powi (exponent x + 1)"
proof -
  have "\<lfloor>log 2 x\<rfloor> = exponent x" by (simp add: exponent_def)
  then have "2 powr (of_int (exponent x)) \<le> x \<and> x < 2 powr (of_int (exponent x) + 1)"
    using assms by (subst (asm) floor_log_eq_powr_iff) auto
  moreover have "(2::real) powr (of_int (exponent x) + 1) = 2 powr (of_int (exponent x + 1))" by simp
  ultimately show "2 powi (exponent x) \<le> x" "x < 2 powi (exponent x + 1)"
    by (simp_all only: powr_powi)
qed

lemma exponent_eq:
  assumes "0 < x" "2 powi e \<le> x" "x < 2 powi (e + 1)"
  shows "exponent x = e"
proof -
  have "2 powr (of_int e) \<le> x \<and> x < 2 powr (of_int e + 1)"
  proof -
    have "(2::real) powr (of_int e + 1) = 2 powr (of_int (e + 1))" by simp
    then show ?thesis using assms(2,3) by (simp only: powr_powi)
  qed
  then show ?thesis unfolding exponent_def using assms(1)
    by (subst floor_log_eq_powr_iff) auto
qed

lemma exponent_mono:
  assumes "0 < x" "x \<le> y"
  shows "exponent x \<le> exponent y"
  unfolding exponent_def using assms by (intro floor_mono) simp

lemma round_half_even_int [simp]: "round_half_even (of_int n) = n"
  by (simp add: round_half_even_def)

lemma round_half_even_bounds: "\<lfloor>x\<rfloor> \<le> round_half_even x" "round_half_even x \<le> \<lfloor>x\<rfloor> + 1"
  by (simp_all add: round_half_even_def Let_def)

lemma round_half_even_mono:
  assumes "x \<le> y"
  shows "round_half_even x \<le> round_half_even y"
proof (cases "\<lfloor>x\<rfloor> = \<lfloor>y\<rfloor>")
  case True
  then show ?thesis using assms by (auto simp: round_half_even_def Let_def)
next
  case False
  then have "\<lfloor>x\<rfloor> < \<lfloor>y\<rfloor>" using assms floor_mono [of x y] by linarith
  then have "\<lfloor>x\<rfloor> + 1 \<le> \<lfloor>y\<rfloor>" by simp
  with round_half_even_bounds(2) [of x] round_half_even_bounds(1) [of y] show ?thesis by linarith
qed

lemma round_half_even_le_int: "x \<le> of_int n \<Longrightarrow> round_half_even x \<le> n"
  using round_half_even_mono [of x "of_int n"] by simp

lemma round_half_even_ge_int: "of_int n \<le> x \<Longrightarrow> n \<le> round_half_even x"
  using round_half_even_mono [of "of_int n" x] by simp

lemma scaled_bounds:
  assumes "0 < x"
  shows "2 ^ 52 \<le> x / 2 powi (exponent x - 52)" "x / 2 powi (exponent x - 52) < 2 ^ 53"
proof -
  let ?e = "exponent x"
  have q: "(2::real) powi (?e - 52) > 0" by simp
  have a: "(2::real) powi ?e = 2 ^ 52 * 2 powi (?e - 52)"
    by (simp add: power_int_diff)
  have b: "(2::real) powi (?e + 1) = 2 ^ 53 * 2 powi (?e - 52)"
    by (simp add: power_int_diff power_int_add)
  from exponent_bounds [OF assms] have "2 ^ 52 * 2 powi (?e - 52) \<le> x" "x < 2 ^ 53 * 2 powi (?e - 52)"
    unfolding a b by simp_all
  then show "2 ^ 52 \<le> x / 2 powi (?e - 52)" "x / 2 powi (?e - 52) < 2 ^ 53"
    using q by (simp_all add: field_simps)
qed

lemma round_pos_bounds:
  assumes "0 < x"
  shows "2 powi (exponent x) \<le> round_pos x" "round_pos x \<le> 2 powi (exponent x + 1)"
proof -
  let ?e = "exponent x" let ?q = "(2::real) powi (exponent x - 52)"
  have q: "?q > 0" by simp
  have a: "(2::real) powi ?e = 2 ^ 52 * ?q" by (simp add: power_int_diff)
  have b: "(2::real) powi (?e + 1) = 2 ^ 53 * ?q" by (simp add: power_int_diff power_int_add)
  have "(2::int) ^ 52 \<le> round_half_even (x / ?q)"
    by (rule round_half_even_ge_int) (use scaled_bounds(1) [OF assms] in simp)
  then have "(2::real) ^ 52 \<le> of_int (round_half_even (x / ?q))"
    by (metis of_int_le_iff of_int_numeral of_int_power)
  then show "2 powi ?e \<le> round_pos x" unfolding a round_pos_def Let_def using q by simp
  have "round_half_even (x / ?q) \<le> (2::int) ^ 53"
    by (rule round_half_even_le_int) (use scaled_bounds(2) [OF assms] in simp)
  then have "of_int (round_half_even (x / ?q)) \<le> (2::real) ^ 53"
    by (metis of_int_le_iff of_int_numeral of_int_power)
  then show "round_pos x \<le> 2 powi (?e + 1)" unfolding b round_pos_def Let_def using q by simp
qed

lemma round_pos_positive: "0 < x \<Longrightarrow> 0 < round_pos x"
  using round_pos_bounds(1) [of x] zero_less_power_int [of "2::real" "exponent x"] by linarith

lemma round_pos_mono:
  assumes "0 < x" "x \<le> y"
  shows "round_pos x \<le> round_pos y"
proof (cases "exponent x = exponent y")
  case True
  let ?q = "(2::real) powi (exponent y - 52)"
  have "x / ?q \<le> y / ?q" using assms(2) by (simp add: divide_right_mono)
  then have "round_half_even (x / ?q) \<le> round_half_even (y / ?q)" by (rule round_half_even_mono)
  then have "of_int (round_half_even (x / ?q)) * ?q \<le> of_int (round_half_even (y / ?q)) * ?q"
    by (intro mult_right_mono) simp_all
  then show ?thesis unfolding round_pos_def Let_def True .
next
  case False
  with exponent_mono [OF assms] have "exponent x + 1 \<le> exponent y" by simp
  then have "(2::real) powi (exponent x + 1) \<le> 2 powi (exponent y)"
    by (intro power_int_increasing) simp_all
  moreover have "0 < y" using assms by simp
  ultimately show ?thesis
    using round_pos_bounds(2) [OF assms(1)] round_pos_bounds(1) [of y] by linarith
qed

lemma mpf_round_zero [simp]: "mpf_round 0 = 0"
  by (simp add: mpf_round_def)

lemma mpf_round_mono:
  assumes "x \<le> y"
  shows "mpf_round x \<le> mpf_round y"
proof -
  consider "0 < x" | "x = 0" | "x < 0" "y < 0" | "x < 0" "0 \<le> y" by linarith
  then show ?thesis
  proof cases
    case 1
    then show ?thesis using assms round_pos_mono [of x y] by (simp add: mpf_round_def)
  next
    case 2
    then show ?thesis using assms round_pos_positive [of y] by (auto simp: mpf_round_def)
  next
    case 3
    then have "round_pos (- y) \<le> round_pos (- x)" using assms by (intro round_pos_mono) simp_all
    with 3 show ?thesis by (simp add: mpf_round_def)
  next
    case 4
    then have "mpf_round x \<le> 0" using round_pos_positive [of "- x"] by (simp add: mpf_round_def)
    moreover have "0 \<le> mpf_round y" using 4 round_pos_positive [of y] by (auto simp: mpf_round_def)
    ultimately show ?thesis by simp
  qed
qed

lemma mpf_round_negative: "x < 0 \<Longrightarrow> mpf_round x < 0"
  using round_pos_positive [of "- x"] by (simp add: mpf_round_def)

lemma mpf_round_sign: "mpf_round x < 0 \<longleftrightarrow> x < 0"
  using round_pos_positive [of x] round_pos_positive [of "- x"]
  by (cases "x = 0"; cases "0 < x") (auto simp: mpf_round_def)

lemma round_pos_eval:
  assumes "0 < x" "2 powi e \<le> x" "x < 2 powi (e + 1)"
  shows "round_pos x = of_int (round_half_even (x / 2 powi (e - 52))) * 2 powi (e - 52)"
  using exponent_eq [OF assms] by (simp add: round_pos_def Let_def)

lemma round_pos_fixed:
  assumes "0 < m" "m < 2 ^ 53"
  shows "round_pos (of_int m * 2 powi e) = of_int m * 2 powi e"
proof -
  let ?x = "of_int m * (2::real) powi e"
  have x: "0 < ?x" using assms(1) by simp
  let ?E = "exponent ?x"
  have "of_int m < (2::real) ^ 53" using assms(2) by (metis of_int_less_iff of_int_numeral of_int_power)
  then have "?x < 2 ^ 53 * 2 powi e" by simp
  also have "\<dots> = 2 powi (e + 53)" by (simp add: power_int_add)
  finally have "(2::real) powi ?E < 2 powi (e + 53)" using exponent_bounds(1) [OF x] by linarith
  then have "?E < e + 53"
    using power_int_increasing [of "e + 53" ?E "2::real"] by (cases "?E < e + 53") simp_all
  then have "0 \<le> e - ?E + 52" by simp
  then obtain k where k: "e - ?E + 52 = int k" by (rule nonneg_int_cases)
  have "?x / 2 powi (?E - 52) = of_int m * 2 powi (e - (?E - 52))"
    by (simp add: power_int_diff)
  also have "e - (?E - 52) = int k" using k by simp
  finally have s: "?x / 2 powi (?E - 52) = of_int (m * 2 ^ k)" by simp
  have rh: "round_half_even (?x / 2 powi (?E - 52)) = m * 2 ^ k"
    unfolding s by (rule round_half_even_int)
  have "round_pos ?x = of_int (m * 2 ^ k) * 2 powi (?E - 52)"
    unfolding round_pos_def Let_def rh ..
  also have "\<dots> = of_int m * (2 powi (int k) * 2 powi (?E - 52))" by simp
  also have "2 powi (int k) * (2::real) powi (?E - 52) = 2 powi (int k + (?E - 52))"
    by (simp add: power_int_add)
  also have "int k + (?E - 52) = e" using k by simp
  finally show ?thesis .
qed

lemma round_pos_idem:
  assumes "0 < x"
  shows "round_pos (round_pos x) = round_pos x"
proof -
  let ?q = "(2::real) powi (exponent x - 52)"
  let ?M = "round_half_even (x / ?q)"
  have r: "round_pos x = of_int ?M * ?q" by (simp add: round_pos_def Let_def)
  have lo: "2 ^ 52 \<le> ?M"
    by (rule round_half_even_ge_int) (use scaled_bounds(1) [OF assms] in simp)
  have hi: "?M \<le> 2 ^ 53"
    by (rule round_half_even_le_int) (use scaled_bounds(2) [OF assms] in simp)
  show ?thesis
  proof (cases "?M = 2 ^ 53")
    case True
    have "round_pos x = 2 ^ 53 * ?q" unfolding r True by simp
    also have "\<dots> = of_int 1 * 2 powi (exponent x + 1)"
      by (simp add: power_int_add power_int_diff)
    finally have e: "round_pos x = of_int 1 * 2 powi (exponent x + 1)" .
    show ?thesis unfolding e by (rule round_pos_fixed) simp_all
  next
    case False
    with hi have "?M < 2 ^ 53" by simp
    moreover have "0 < ?M" using lo by (smt (verit) zero_less_power)
    ultimately show ?thesis unfolding r by (intro round_pos_fixed)
  qed
qed

lemma mpf_round_idem: "mpf_round (mpf_round x) = mpf_round x"
proof -
  consider "x = 0" | "0 < x" | "x < 0" by linarith
  then show ?thesis
  proof cases
    case 1
    then show ?thesis by simp
  next
    case 2
    then show ?thesis using round_pos_positive [of x] round_pos_idem [of x]
      by (simp add: mpf_round_def)
  next
    case 3
    then show ?thesis using round_pos_positive [of "- x"] round_pos_idem [of "- x"]
      by (simp add: mpf_round_def)
  qed
qed

lemma mpf_round_int:
  assumes "\<bar>m\<bar> < 2 ^ 53"
  shows "mpf_round (of_int m * 2 powi e) = of_int m * 2 powi e"
proof -
  consider "m = 0" | "0 < m" | "m < 0" by linarith
  then show ?thesis
  proof cases
    case 1
    then show ?thesis by simp
  next
    case 2
    then show ?thesis using assms round_pos_fixed [of m e] by (simp add: mpf_round_def)
  next
    case 3
    then have "round_pos (of_int (- m) * 2 powi e) = of_int (- m) * 2 powi e"
      using assms by (intro round_pos_fixed) simp_all
    moreover have "of_int m * (2::real) powi e < 0" using 3 by (simp add: mult_less_0_iff)
    ultimately show ?thesis by (simp add: mpf_round_def)
  qed
qed

lemma is_mpf_round: "is_mpf (mpf_round x)"
  by (simp add: is_mpf_def mpf_round_idem)

lemma is_mpf_int: "\<bar>m\<bar> < 2 ^ 53 \<Longrightarrow> is_mpf (of_int m)"
  using mpf_round_int [of m 0] by (simp add: is_mpf_def)

lemma mpf_round_less_imp: "mpf_round x < mpf_round y \<Longrightarrow> x < y"
  using mpf_round_mono [of y x] by (cases "x < y") simp_all

section \<open>The Dunn ratio comparison\<close>

lemma ebind_eq_Inr: "ebind m f = Inr y \<longleftrightarrow> (\<exists>x. m = Inr x \<and> f x = Inr y)"
  by (cases m) auto

lemma save_best_inv: "dunn_inv c \<Longrightarrow> dunn_inv (save_best c cl d)"
  by (auto simp: dunn_inv_def save_best_def Let_def split: option.splits)

lemma save_best_fields:
  "max_diameter (save_best c cl d) = max_diameter c"
  "merge_limit (save_best c cl d) = merge_limit c"
  by (simp_all add: save_best_def Let_def)

lemma save_and_merge_inv:
  assumes "dunn_inv c" "save_and_merge c cl i j d = Inr (b, c')"
  shows "dunn_inv c'"
proof -
  let ?c = "save_best c cl d"
  have inv: "dunn_inv ?c" using assms(1) by (rule save_best_inv)
  show ?thesis
  proof (cases "case merge_limit ?c of None \<Rightarrow> False | Some l \<Rightarrow> d > l")
    case True
    with assms(2) have "c' = ?c" by (simp add: save_and_merge_def Let_def)
    with inv show ?thesis by simp
  next
    case False
    with assms(2) obtain dm v where c': "c' = ?c\<lparr>diameters := dm, max_diameter := max (max_diameter ?c) v\<rparr>"
      by (auto simp: save_and_merge_def Let_def ebind_eq_Inr)
    from inv show ?thesis unfolding c' dunn_inv_def
      by (auto split: option.splits)
  qed
qed

lemma dunn_reachable_inv: "dunn_reachable c \<Longrightarrow> dunn_inv c"
proof (induction rule: dunn_reachable.induct)
  case (fresh ds n limit)
  show ?case by (simp add: dunn_inv_def dunn_init_def)
next
  case (merged c cl i j d b c')
  then show ?case using save_and_merge_inv by blast
qed

lemma ratio_bigger_than_sound:
  assumes "0 < a2" "0 < b2" "ratio_bigger_than (a1, a2) (b1, b2)"
  shows "a1 / a2 > b1 / b2"
proof -
  from assms(3) have "mpf_round (b1 * a2) < mpf_round (a1 * b2)" by (simp add: ratio_bigger_than_def)
  then have "b1 * a2 < a1 * b2" by (rule mpf_round_less_imp)
  with assms(1,2) show ?thesis by (simp add: field_simps)
qed

lemma ratio_bigger_than_exact:
  assumes "0 < a2" "0 < b2" "is_mpf (a1 * b2)" "is_mpf (b1 * a2)"
  shows "ratio_bigger_than (a1, a2) (b1, b2) \<longleftrightarrow> a1 / a2 > b1 / b2"
proof -
  have "ratio_bigger_than (a1, a2) (b1, b2) \<longleftrightarrow> b1 * a2 < a1 * b2"
    using assms(3,4) by (simp add: ratio_bigger_than_def is_mpf_def)
  with assms(1,2) show ?thesis by (simp add: field_simps)
qed

text \<open>
  Claim C8, as amended. Whenever \<^verbatim>\<open>save_and_merge\<close> compares the current Dunn fraction
  \<open>(d_min, max_diameter)\<close> with the best fraction saved so far, both denominators are
  positive, and \<^verbatim>\<open>_ratio_bigger_than\<close>, which compares the two floating-point products
  \<open>a1 * b2\<close> and \<open>b1 * a2\<close>, is true only when \<open>a1 / a2 > b1 / b2\<close>; it is true
  exactly when \<open>a1 / a2 > b1 / b2\<close> if neither product is rounded (both are 53-bit
  numbers). The quotients are those of the real numbers.
\<close>

theorem ratio_bigger_than_only_if_division:
  assumes "dunn_reachable c" and "best_dunn c = Some (b1, b2)"
  shows "0 < max_diameter c \<and> 0 < b2
         \<and> (ratio_bigger_than (d_min, max_diameter c) (b1, b2) \<longrightarrow> d_min / max_diameter c > b1 / b2)
         \<and> (is_mpf (d_min * b2) \<and> is_mpf (b1 * max_diameter c) \<longrightarrow>
              (ratio_bigger_than (d_min, max_diameter c) (b1, b2)
                 \<longleftrightarrow> d_min / max_diameter c > b1 / b2))"
proof -
  from assms have pos: "0 < b2" "0 < max_diameter c"
    using dunn_reachable_inv [of c] by (auto simp: dunn_inv_def)
  show ?thesis
    using pos ratio_bigger_than_sound [OF pos(2,1), of d_min b1]
      ratio_bigger_than_exact [OF pos(2,1), of d_min b1] by blast
qed

theorem ratio_bigger_than_only_if_division_witness:
  "dunn_reachable \<lparr>distances = [1, 5, 4], n_points = 3,
         diameters = [Some 5, None, None], max_diameter = 5,
         best_dunn = Some (4, 1), best_partition = Some [[0, 1], [2]],
         merge_limit = None\<rparr>
   \<and> is_mpf (30 * 1) \<and> is_mpf (4 * 5) \<and> is_mpf (20 * 1)
   \<and> ratio_bigger_than (30, 5) (4, 1) \<and> (30::real) / 5 > 4 / 1
   \<and> \<not> ratio_bigger_than (20, 5) (4, 1) \<and> \<not> (20::real) / 5 > 4 / 1"
proof -
  let ?c1 = "\<lparr>distances = [1, 5, 4], n_points = 3,
         diameters = [Some 1, None, Some 0], max_diameter = 1,
         best_dunn = None, best_partition = Some [[0], [1], [2]],
         merge_limit = None\<rparr>"
  let ?c2 = "\<lparr>distances = [1, 5, 4], n_points = 3,
         diameters = [Some 5, None, None], max_diameter = 5,
         best_dunn = Some (4, 1), best_partition = Some [[0, 1], [2]],
         merge_limit = None\<rparr>"
  have s1: "save_and_merge (dunn_init [1, 5, 4] 3 None) [Some [0], Some [1], Some [2]] 0 1 1 = Inr (True, ?c1)"
    by (simp add: save_and_merge_def dunn_init_def save_best_def new_diameter_def members_of_def
        getitem_def fast_distance_def index_def max_of_def diameter_at_def live_clusters_def numeral_3_eq_3)
  have s2: "save_and_merge ?c1 [Some [0, 1], None, Some [2]] 0 2 4 = Inr (True, ?c2)"
    by (simp add: save_and_merge_def save_best_def new_diameter_def members_of_def
        getitem_def fast_distance_def index_def max_of_def diameter_at_def live_clusters_def)
  have r: "dunn_reachable ?c2"
    using dunn_reachable.merged [OF dunn_reachable.merged [OF dunn_reachable.fresh s1] s2] .
  have b: "best_dunn ?c2 = Some (4, 1)" by simp
  have m: "is_mpf 30" "is_mpf 20"
    using is_mpf_int [of 30] is_mpf_int [of 20] by simp_all
  show ?thesis
    using r m ratio_bigger_than_only_if_division [OF r b, of 30]
      ratio_bigger_than_only_if_division [OF r b, of 20]
    by simp
qed

text \<open>
  Claim C8 as stated fails. Four points with the distances
  \<open>d(1,0) = 1 - 2\<^sup>-\<^sup>5\<^sup>3\<close>, \<open>d(3,2) = 1\<close>, \<open>d(2,1) = 1 + 2\<^sup>-\<^sup>5\<^sup>2\<close> and 2 elsewhere: after the
  merges of \<open>(0, 1)\<close> and \<open>(2, 3)\<close> the best fraction is \<open>(1, 1 - 2\<^sup>-\<^sup>5\<^sup>3)\<close> and the
  maximal diameter is 1. The next fraction \<open>(1 + 2\<^sup>-\<^sup>5\<^sup>2, 1)\<close> is the bigger ratio, but the
  product \<open>(1 + 2\<^sup>-\<^sup>5\<^sup>2) * (1 - 2\<^sup>-\<^sup>5\<^sup>3)\<close> rounds to 1, the comparison answers false,
  and \<^verbatim>\<open>save_and_merge\<close> keeps the partition it had saved.
\<close>

theorem ratio_bigger_than_misses_bigger_ratio:
  "dunn_reachable \<lparr>distances = [1 - 1 / 2 ^ 53, 2, 1 + 1 / 2 ^ 52, 2, 2, 1], n_points = 4,
         diameters = [Some (1 - 1 / 2 ^ 53), None, Some 1, None], max_diameter = 1,
         best_dunn = Some (1, 1 - 1 / 2 ^ 53), best_partition = Some [[0, 1], [2], [3]],
         merge_limit = None\<rparr>
   \<and> \<not> ratio_bigger_than (1 + 1 / 2 ^ 52, 1) (1, 1 - 1 / 2 ^ 53)
   \<and> (1 + 1 / 2 ^ 52) / 1 > (1::real) / (1 - 1 / 2 ^ 53)
   \<and> save_best \<lparr>distances = [1 - 1 / 2 ^ 53, 2, 1 + 1 / 2 ^ 52, 2, 2, 1], n_points = 4,
         diameters = [Some (1 - 1 / 2 ^ 53), None, Some 1, None], max_diameter = 1,
         best_dunn = Some (1, 1 - 1 / 2 ^ 53), best_partition = Some [[0, 1], [2], [3]],
         merge_limit = None\<rparr> [Some [0, 1], None, Some [2, 3], None] (1 + 1 / 2 ^ 52)
       = \<lparr>distances = [1 - 1 / 2 ^ 53, 2, 1 + 1 / 2 ^ 52, 2, 2, 1], n_points = 4,
         diameters = [Some (1 - 1 / 2 ^ 53), None, Some 1, None], max_diameter = 1,
         best_dunn = Some (1, 1 - 1 / 2 ^ 53), best_partition = Some [[0, 1], [2], [3]],
         merge_limit = None\<rparr>"
proof -
  define ds :: "real list" where "ds = [1 - 1 / 2 ^ 53, 2, 1 + 1 / 2 ^ 52, 2, 2, 1]"
  define c1 where "c1 = \<lparr>distances = ds, n_points = 4,
         diameters = [Some (1 - 1 / 2 ^ 53), None, Some 0, Some 0], max_diameter = 1 - 1 / 2 ^ 53,
         best_dunn = None, best_partition = Some [[0], [1], [2], [3]],
         merge_limit = None\<rparr>"
  define c2 where "c2 = \<lparr>distances = ds, n_points = 4,
         diameters = [Some (1 - 1 / 2 ^ 53), None, Some 1, None], max_diameter = 1,
         best_dunn = Some (1, 1 - 1 / 2 ^ 53), best_partition = Some [[0, 1], [2], [3]],
         merge_limit = None\<rparr>"
  have s1: "save_and_merge (dunn_init ds 4 None) [Some [0], Some [1], Some [2], Some [3]] 0 1 (1 - 1 / 2 ^ 53)
              = Inr (True, c1)"
    unfolding c1_def ds_def
    by (simp add: save_and_merge_def dunn_init_def save_best_def new_diameter_def members_of_def
        getitem_def fast_distance_def index_def max_of_def diameter_at_def live_clusters_def
        eval_nat_numeral)
  have s2: "save_and_merge c1 [Some [0, 1], None, Some [2], Some [3]] 2 3 1 = Inr (True, c2)"
    unfolding c1_def c2_def ds_def
    by (simp add: save_and_merge_def save_best_def new_diameter_def members_of_def
        getitem_def fast_distance_def index_def max_of_def diameter_at_def live_clusters_def)
  have r: "dunn_reachable c2"
    using dunn_reachable.merged [OF dunn_reachable.merged [OF dunn_reachable.fresh s1] s2] .
  have "round_pos ((1 + 1 / 2 ^ 52) * (1 - 1 / 2 ^ 53)) = 1"
    by (subst round_pos_eval [where e = 0]) (simp_all add: round_half_even_def)
  then have p1: "mpf_round ((1 + 1 / 2 ^ 52) * (1 - 1 / 2 ^ 53)) = 1" by (simp add: mpf_round_def)
  have p2: "mpf_round 1 = 1" using mpf_round_int [of 1 0] by simp
  have n: "\<not> ratio_bigger_than (1 + 1 / 2 ^ 52, 1) (1, 1 - 1 / 2 ^ 53)"
    unfolding ratio_bigger_than_def prod.case mult_1 mult_1_right p1 p2 by simp
  have g: "(1 + 1 / 2 ^ 52) / 1 > (1::real) / (1 - 1 / 2 ^ 53)" by simp
  have k: "save_best c2 [Some [0, 1], None, Some [2, 3], None] (1 + 1 / 2 ^ 52) = c2"
    using n by (simp add: save_best_def c2_def)
  from r n g k show ?thesis unfolding c2_def ds_def by simp
qed

section \<open>The deterministic sampler: permutations\<close>

lemma randint_range:
  "a \<le> b \<Longrightarrow> \<exists>j. randint a b g = (Inr j, advance g) \<and> a \<le> j \<and> j \<le> b"
proof -
  assume ab: "a \<le> b"
  have "g 0 mod nat (b - a + 1) < nat (b - a + 1)" using ab by simp
  then have "int (g 0 mod nat (b - a + 1)) \<le> b - a" using ab by linarith
  then show ?thesis using ab by (simp add: randint_def)
qed

lemma shuffled_rest_finished: "finished st \<Longrightarrow> shuffled_rest st g = (Inr [], g)"
  by (subst shuffled_rest.simps) (simp add: shuffled_next_def)

lemma shuffled_rest_permutes:
  assumes "\<not> finished st" "cursor st \<le> bound st - 1"
    and "inj_on (nth_of (overrides st)) {cursor st..bound st - 1}"
  shows "\<exists>xs g'. shuffled_rest st g = (Inr xs, g') \<and> distinct xs
           \<and> set xs = nth_of (overrides st) ` {cursor st..bound st - 1}
           \<and> length xs = nat (bound st - cursor st)"
  using assms
proof (induction "nat (bound st - 1 - cursor st)" arbitrary: st g)
  case 0
  then have eq: "cursor st = bound st - 1" by simp
  have nx: "shuffled_next st g = (Yield (nth_of (overrides st) (bound st - 1)), st\<lparr>finished := True\<rparr>, g)"
    using 0 eq by (simp add: shuffled_next_def)
  have "shuffled_rest st g = (Inr [nth_of (overrides st) (bound st - 1)], g)"
    by (subst shuffled_rest.simps) (simp add: nx shuffled_rest_finished)
  then show ?case using eq by simp
next
  case (Suc m)
  let ?A = "nth_of (overrides st)"
  let ?i = "cursor st" and ?n = "bound st"
  from Suc.hyps(2) have lt: "?i < ?n - 1" by linarith
  then obtain j where j: "randint ?i (?n - 1) g = (Inr j, advance g)" "?i \<le> j" "j \<le> ?n - 1"
    using randint_range [of ?i "?n - 1" g] by auto
  let ?st = "st\<lparr>overrides := (overrides st)(j \<mapsto> ?A ?i), cursor := ?i + 1\<rparr>"
  let ?A' = "nth_of (overrides ?st)"
  have nx: "shuffled_next st g = (Yield (?A j), ?st, advance g)"
    using Suc.prems(1) lt j(1) by (simp add: shuffled_next_def Let_def)
  have A': "\<And>k. ?A' k = (if k = j then ?A ?i else ?A k)"
    by (simp add: nth_of_def)
  have inj: "inj_on ?A {?i..?n - 1}" by (rule Suc.prems(3))
  have inj': "inj_on ?A' {cursor ?st..bound ?st - 1}"
  proof (rule inj_onI)
    fix x y assume x: "x \<in> {cursor ?st..bound ?st - 1}" and y: "y \<in> {cursor ?st..bound ?st - 1}"
      and e: "?A' x = ?A' y"
    have xr: "x \<in> {?i..?n - 1}" "x \<noteq> ?i" and yr: "y \<in> {?i..?n - 1}" "y \<noteq> ?i" using x y by auto
    have ir: "?i \<in> {?i..?n - 1}" using lt by simp
    show "x = y"
    proof (cases "x = j")
      case True
      show ?thesis
      proof (cases "y = j")
        case True with \<open>x = j\<close> show ?thesis by simp
      next
        case False
        with True e have "?A ?i = ?A y" by (simp add: nth_of_def)
        with inj ir yr have "?i = y" by (auto dest: inj_onD)
        with yr show ?thesis by simp
      qed
    next
      case False
      show ?thesis
      proof (cases "y = j")
        case True
        with False e have "?A x = ?A ?i" by (simp add: nth_of_def)
        with inj ir xr have "x = ?i" by (auto dest: inj_onD)
        with xr show ?thesis by simp
      next
        case False
        with \<open>x \<noteq> j\<close> e have "?A x = ?A y" by (simp add: nth_of_def)
        with inj xr yr show ?thesis by (auto dest: inj_onD)
      qed
    qed
  qed
  have img: "?A' ` {cursor ?st..bound ?st - 1} = ?A ` {?i..?n - 1} - {?A j}"
  proof (rule set_eqI, rule iffI)
    fix v assume "v \<in> ?A' ` {cursor ?st..bound ?st - 1}"
    then obtain k where kin': "k \<in> {cursor ?st..bound ?st - 1}" and vk': "v = ?A' k" by blast
    then have k: "?i + 1 \<le> k" "k \<le> ?n - 1" "v = ?A' k" by auto
    have jr: "j \<in> {?i..?n - 1}" using j by simp
    have ir: "?i \<in> {?i..?n - 1}" using lt by simp
    have kr: "k \<in> {?i..?n - 1}" using k by simp
    show "v \<in> ?A ` {?i..?n - 1} - {?A j}"
    proof (cases "k = j")
      case True
      then have v: "v = ?A ?i" using k(3) by (simp add: nth_of_def)
      have "?A ?i \<noteq> ?A j" using inj ir jr True k(1) by (auto dest: inj_onD)
      with v ir show ?thesis by auto
    next
      case False
      then have v: "v = ?A k" using k(3) by (simp add: nth_of_def)
      have "?A k \<noteq> ?A j" using inj kr jr False by (auto dest: inj_onD)
      with v kr show ?thesis by auto
    qed
  next
    fix v assume "v \<in> ?A ` {?i..?n - 1} - {?A j}"
    then have vin: "v \<in> ?A ` {?i..?n - 1}" and vne: "v \<noteq> ?A j" by auto
    from vin obtain k where kin: "k \<in> {?i..?n - 1}" and vk: "v = ?A k" by blast
    from kin vk vne have k: "?i \<le> k" "k \<le> ?n - 1" "v = ?A k" "k \<noteq> j" by auto
    show "v \<in> ?A' ` {cursor ?st..bound ?st - 1}"
    proof (cases "k = ?i")
      case True
      have "j \<noteq> ?i" using k True by simp
      then have "j \<in> {cursor ?st..bound ?st - 1}" using j by simp
      moreover have "?A' j = v" using k True by (simp add: nth_of_def)
      ultimately show ?thesis by blast
    next
      case False
      then have "k \<in> {cursor ?st..bound ?st - 1}" using k by simp
      moreover have "?A' k = v" using k by (simp add: nth_of_def)
      ultimately show ?thesis by blast
    qed
  qed
  have m: "m = nat (bound ?st - 1 - cursor ?st)" using Suc.hyps(2) by simp
  have nf: "\<not> finished ?st" using Suc.prems(1) by simp
  have le: "cursor ?st \<le> bound ?st - 1" using lt by simp
  from Suc.hyps(1) [OF m nf le inj', of "advance g"]
  obtain xs g' where xs: "shuffled_rest ?st (advance g) = (Inr xs, g')" "distinct xs"
      "set xs = ?A' ` {cursor ?st..bound ?st - 1}" "length xs = nat (bound ?st - cursor ?st)"
    by blast
  have r: "shuffled_rest st g = (Inr (?A j # xs), g')"
    by (subst shuffled_rest.simps) (simp add: nx xs(1))
  have jr: "j \<in> {?i..?n - 1}" using j by simp
  have "distinct (?A j # xs)" using xs(2,3) img by simp
  moreover have "set (?A j # xs) = ?A ` {?i..?n - 1}" using xs(3) img jr by auto
  moreover have "length (?A j # xs) = nat (?n - ?i)" using xs(4) lt by simp
  ultimately show ?case using r by blast
qed

text \<open>
  For \<open>n \<ge> 1\<close> and every stream of raw draws, \<^verbatim>\<open>_shuffled_range(n)\<close> produces
  \<open>n\<close> values, no value twice, and exactly the values \<open>0, ..., n - 1\<close>.
\<close>

lemma shuffled_range_permutation:
  assumes "1 \<le> n"
  shows "\<exists>xs g'. shuffled_range_list n g = (Inr xs, g') \<and> length xs = nat n \<and> distinct xs
           \<and> set xs = {0..n - 1}"
proof -
  have "inj_on (nth_of (overrides (shuffled_range n))) {cursor (shuffled_range n)..bound (shuffled_range n) - 1}"
    by (simp add: shuffled_range_def nth_of_def inj_on_def)
  from shuffled_rest_permutes [OF _ _ this, of g] assms
  obtain xs g' where "shuffled_rest (shuffled_range n) g = (Inr xs, g')" "distinct xs"
    "set xs = {0..n - 1}" "length xs = nat n"
    by (auto simp: shuffled_range_def nth_of_def)
  then show ?thesis unfolding shuffled_range_list_def by blast
qed


section \<open>The silhouette criterion at distance zero\<close>

lemma robust_min_from_mem:
  "robust_min_from m xs = Some b \<Longrightarrow> m = Some b \<or> b \<in> set xs \<or> (\<exists>v. m = Some v \<and> b = v)"
  by (induction xs arbitrary: m) (fastforce split: option.splits if_splits)+

lemma robust_min_from_Some: "robust_min_from (Some v) xs \<noteq> None"
  by (induction xs arbitrary: v) auto

lemma robust_min_mem: "robust_min xs = Some b \<Longrightarrow> b \<in> set xs"
  unfolding robust_min_def using robust_min_from_mem [of None xs b] by auto

lemma robust_min_None: "robust_min xs = None \<longleftrightarrow> xs = []"
  unfolding robust_min_def by (cases xs) (auto simp: robust_min_from_Some)

lemma traverse_one_error:
  assumes "\<forall>x \<in> set xs. (\<exists>v. f x = Inr v) \<or> f x = Inl E"
  shows "(if \<exists>x \<in> set xs. f x = Inl E then traverse f xs = Inl E else \<exists>ys. traverse f xs = Inr ys)"
  using assms
proof (induction xs)
  case Nil
  show ?case by simp
next
  case (Cons x xs)
  then have ih: "if \<exists>x \<in> set xs. f x = Inl E then traverse f xs = Inl E else \<exists>ys. traverse f xs = Inr ys"
    by simp
  from Cons.prems have "(\<exists>v. f x = Inr v) \<or> f x = Inl E" by simp
  then show ?case
  proof
    assume "\<exists>v. f x = Inr v"
    then obtain v where v: "f x = Inr v" ..
    show ?thesis using ih v by (auto split: if_splits)
  next
    assume "f x = Inl E"
    then show ?thesis by simp
  qed
qed

lemma sum_list_nonneg_map: "(\<And>x. 0 \<le> f x) \<Longrightarrow> 0 \<le> sum_list (map f xs)" for f :: "'a \<Rightarrow> real"
  by (induction xs) auto

lemma within_distance_nonneg:
  assumes "\<forall>i j. 0 \<le> distance i j" "k < length clusters"
    and "approximate_within_distances clusters distance ! k = Some a"
  shows "0 \<le> a"
proof -
  let ?c = "clusters ! k"
  obtain s n where w: "within_of ?c distance = (s, n)" by (cases "within_of ?c distance")
  have s: "0 \<le> s" "n = length (members ?c)" "n = 0 \<longrightarrow> s = 0" using w assms(1)
    by (auto simp: within_of_def Let_def sum_list_nonneg_map)
  from assms(2,3) w have a: "n \<noteq> 1" "a = s / real_of_int (int n - 1)"
    by (auto simp: approximate_within_distances_def split: if_splits)
  show ?thesis
  proof (cases "n = 0")
    case True
    with s a show ?thesis by simp
  next
    case False
    with a have "0 < real_of_int (int n - 1)" by simp
    with s a show ?thesis by simp
  qed
qed

lemma between_distance_nonneg:
  assumes "\<forall>i j. 0 \<le> distance i j" "k < length clusters"
    and "approximate_mins_of_betweens_distances clusters distance ! k = Some b"
  shows "0 \<le> b"
proof -
  from assms(2,3) have "robust_min (map (\<lambda>b. distance (medoid (clusters ! k)) b) (other_medoids clusters k)) = Some b"
    by (simp add: approximate_mins_of_betweens_distances_def nth_enumerate_eq)
  from robust_min_mem [OF this] assms(1) show ?thesis by auto
qed

lemma other_medoids_nonempty:
  assumes "2 \<le> length clusters" "k < length clusters"
  shows "other_medoids clusters k \<noteq> []"
proof -
  obtain j where j: "j < length clusters" "j \<noteq> k"
  proof (cases "k = 0")
    case True with assms that [of 1] show ?thesis by simp
  next
    case False with assms that [of 0] show ?thesis by (cases clusters) auto
  qed
  have "(j, clusters ! j) \<in> set (enumerate 0 clusters)"
    using j by (auto simp: in_set_enumerate_eq)
  then have "(j, clusters ! j) \<in> set (filter (\<lambda>(j, c). k \<noteq> j) (enumerate 0 clusters))"
    using j by auto
  then show ?thesis unfolding other_medoids_def by (auto simp del: set_filter)
qed

lemma between_distance_Some:
  assumes "2 \<le> length clusters" "k < length clusters"
  shows "\<exists>b. approximate_mins_of_betweens_distances clusters distance ! k = Some b"
proof -
  have "robust_min (map (\<lambda>b. distance (medoid (clusters ! k)) b) (other_medoids clusters k)) \<noteq> None"
    using other_medoids_nonempty [OF assms] by (simp add: robust_min_None)
  then show ?thesis using assms(2)
    by (auto simp: approximate_mins_of_betweens_distances_def nth_enumerate_eq)
qed

text \<open>The hypothesis on the division: the quotient of two zeros is not a number (as with SymPy
  numbers), every other quotient with a non-zero divisor is the number.\<close>

lemma silhouette_nan_division:
  assumes nonneg: "\<forall>i j. 0 \<le> distance i j"
    and nan: "dv 0 0 = Inr NaN"
    and num: "\<forall>x y. y \<noteq> 0 \<longrightarrow> dv x y = Inr (Number (x / y))"
    and len: "2 \<le> length clusters" and k: "k < length clusters"
  shows "(let a = approximate_within_distances clusters distance ! k;
              b = approximate_mins_of_betweens_distances clusters distance ! k
          in (\<exists>v. silhouette dv a b = Inr v) \<and> (\<forall>a'. a = Some a' \<longrightarrow> (\<forall>b'. b = Some b' \<longrightarrow> max a' b' \<noteq> 0))
           \<or> silhouette dv a b = Inl InfiniteSilhouette \<and> (\<exists>a' b'. a = Some a' \<and> b = Some b' \<and> max a' b' = 0))"
proof -
  let ?a = "approximate_within_distances clusters distance ! k"
  let ?b = "approximate_mins_of_betweens_distances clusters distance ! k"
  obtain b' where b': "?b = Some b'" using between_distance_Some [OF len k] by blast
  have b0: "0 \<le> b'" using between_distance_nonneg [OF nonneg k b'] .
  show ?thesis
  proof (cases ?a)
    case None
    then show ?thesis by (simp add: silhouette_def)
  next
    case (Some a')
    have a0: "0 \<le> a'" using within_distance_nonneg [OF nonneg k Some] .
    show ?thesis
    proof (cases "max a' b' = 0")
      case True
      with a0 b0 have "a' = 0" "b' = 0" by (auto simp: max_def split: if_splits)
      then show ?thesis using Some b' nan by (simp add: silhouette_def)
    next
      case False
      then show ?thesis using Some b' num by (simp add: silhouette_def)
    qed
  qed
qed

text \<open>
  Where the quotient of two zeros is not a number, as it is for SymPy numbers, the
  criterion behaves as designed: for every non-negative distance function
  \<^verbatim>\<open>should_split\<close> returns, and it rejects the split when some cluster has
  \<open>max(a, b) = 0\<close>.
\<close>

lemma should_split_nan_division:
  assumes nonneg: "\<forall>i j. 0 \<le> distance i j"
    and nan: "dv 0 0 = Inr NaN"
    and num: "\<forall>x y. y \<noteq> 0 \<longrightarrow> dv x y = Inr (Number (x / y))"
  shows "\<exists>r. should_split dv (ApproximateSilhouetteSplitCriterion lc) siblings merged unmerged distance = Inr r
           \<and> (zero_silhouette (siblings @ unmerged) distance \<longrightarrow> r = (False, None))"
proof -
  let ?cs = "siblings @ unmerged"
  let ?din = "approximate_within_distances ?cs distance"
  let ?dout = "approximate_mins_of_betweens_distances ?cs distance"
  let ?f = "\<lambda>(a, b). silhouette dv a b"
  have lens: "length ?din = length ?cs" "length ?dout = length ?cs"
    by (simp_all add: approximate_within_distances_def approximate_mins_of_betweens_distances_def)
  show ?thesis
  proof (cases "length ?cs \<le> 1")
    case True
    have "\<not> zero_silhouette ?cs distance"
    proof
      assume "zero_silhouette ?cs distance"
      then obtain k b where k: "k < length ?cs" "?dout ! k = Some b"
        unfolding zero_silhouette_def by blast
      from k True have k0: "k = 0" "length ?cs = 1" by auto
      then obtain c where c: "?cs = [c]" by (cases ?cs) auto
      from k(2) show False unfolding c k0
        by (simp add: approximate_mins_of_betweens_distances_def other_medoids_def robust_min_def)
    qed
    then show ?thesis using True
      by (auto simp: should_split_def approximate_global_silhouette_index_def split: option.splits)
  next
    case False
    then have len: "2 \<le> length ?cs" by simp
    have each: "\<forall>x \<in> set (zip ?din ?dout). (\<exists>v. ?f x = Inr v) \<or> ?f x = Inl InfiniteSilhouette"
    proof
      fix x assume "x \<in> set (zip ?din ?dout)"
      then obtain k where k: "k < length ?cs" "x = (?din ! k, ?dout ! k)"
        using lens by (auto simp: in_set_zip)
      from silhouette_nan_division [OF nonneg nan num len k(1)] k(2)
      show "(\<exists>v. ?f x = Inr v) \<or> ?f x = Inl InfiniteSilhouette"
        by (auto simp: Let_def)
    qed
    note tr = traverse_one_error [OF each]
    have zero: "zero_silhouette ?cs distance \<Longrightarrow> \<exists>x \<in> set (zip ?din ?dout). ?f x = Inl InfiniteSilhouette"
    proof -
      assume "zero_silhouette ?cs distance"
      then obtain k a b where k: "k < length ?cs" "?din ! k = Some a" "?dout ! k = Some b" "max a b = 0"
        unfolding zero_silhouette_def by blast
      from silhouette_nan_division [OF nonneg nan num len k(1)] k(2,3,4)
      have "silhouette dv (Some a) (Some b) = Inl InfiniteSilhouette" by (auto simp: Let_def)
      moreover have "(Some a, Some b) \<in> set (zip ?din ?dout)"
        using k lens by (auto simp: in_set_zip intro!: exI [of _ k])
      ultimately show ?thesis by force
    qed
    show ?thesis
    proof (cases "\<exists>x \<in> set (zip ?din ?dout). ?f x = Inl InfiniteSilhouette")
      case True
      with tr have "traverse ?f (zip ?din ?dout) = Inl InfiniteSilhouette" by simp
      then show ?thesis using False
        by (simp add: should_split_def approximate_global_silhouette_index_def
            approximate_mean_silhouette_widths_def Let_def)
    next
      case F: False
      with tr obtain ys where "traverse ?f (zip ?din ?dout) = Inr ys" by auto
      moreover have "\<not> zero_silhouette ?cs distance" using zero F by blast
      ultimately show ?thesis using False
        by (auto simp: should_split_def approximate_global_silhouette_index_def
            approximate_mean_silhouette_widths_def Let_def split: option.splits)
    qed
  qed
qed

text \<open>
  Claim C6. A singleton cluster (\<open>a\<close> is \<^verbatim>\<open>None\<close>) contributes the silhouette value 0.
  With Python's division the second half fails: for two two-point clusters at distance
  zero, \<open>a = 0\<close> and \<open>b = 0\<close>, the quotient \<^verbatim>\<open>(b - a) / max(a, b)\<close> raises
  ZeroDivisionError before the comparison with \<^verbatim>\<open>sympy.nan\<close> is reached, and
  \<^verbatim>\<open>should_split\<close>, which catches InfiniteSilhouette only, lets the exception through.
\<close>

theorem should_split_zero_division:
  "silhouette python_division None b = Inr 0
   \<and> zero_silhouette [\<lparr>medoid = 0, members = [0, 1]\<rparr>, \<lparr>medoid = 2, members = [2, 3]\<rparr>] (\<lambda>i j. 0)
   \<and> should_split python_division (ApproximateSilhouetteSplitCriterion None) []
        (None, [0, 1, 2, 3]) [\<lparr>medoid = 0, members = [0, 1]\<rparr>, \<lparr>medoid = 2, members = [2, 3]\<rparr>] (\<lambda>i j. 0)
      = Inl ZeroDivisionError"
  apply (intro conjI)
    apply (simp add: silhouette_def)
   apply (simp add: zero_silhouette_def approximate_within_distances_def
      approximate_mins_of_betweens_distances_def within_of_def other_medoids_def robust_min_def)
   apply (rule exI [of _ 0])
   apply simp
  apply (simp add: should_split_def approximate_global_silhouette_index_def
      approximate_mean_silhouette_widths_def approximate_within_distances_def
      approximate_mins_of_betweens_distances_def within_of_def other_medoids_def robust_min_def
      silhouette_def python_division_def)
  done

section \<open>The entry point of the partitional engine: random state and the one-cluster case\<close>

lemma lazy_distance_restores: "snd (snd (lazy_distance compute computed i j g)) = g"
  by (simp add: lazy_distance_def Let_def split: option.splits prod.splits sum.splits)

text \<open>
  Claim C2. For every point list, \<open>k\<close>, distance function, mode and seed, the result of
  \<^verbatim>\<open>optimize\<close> is the same whatever the state of the global random stream at the call
  (so two calls with the same arguments return the same), and whenever the call comes
  back, by returning or by raising, the random stream is in the state it was in before
  the call. \<^verbatim>\<open>LazyDistances.distance\<close> likewise leaves the random state as it found it,
  whether its computation returns or raises.
\<close>

theorem optimize_deterministic:
  "fst (optimize lg dv seed_state depth fuel p k d0 mode seed g1)
     = fst (optimize lg dv seed_state depth fuel p k d0 mode seed g2)
   \<and> (fst (optimize lg dv seed_state depth fuel p k d0 mode seed g) \<noteq> Diverged
        \<longrightarrow> snd (optimize lg dv seed_state depth fuel p k d0 mode seed g) = g)
   \<and> snd (snd (lazy_distance compute computed i j g)) = g"
  by (simp add: optimize_def Let_def lazy_distance_restores split: prod.splits result.splits)

theorem optimize_deterministic_witness:
  "fst (optimize (\<lambda>x. x - 1) python_division (\<lambda>s i. 0) 1 1 ''ab'' (KInt 2) (\<lambda>i j. 1) ''components'' 7 (\<lambda>i. 5))
     = Ok (ComponentArray [1, 2])
   \<and> fst (optimize (\<lambda>x. x - 1) python_division (\<lambda>s i. 0) 1 1 ''ab'' (KInt 2) (\<lambda>i j. 1) ''components'' 7 (\<lambda>i. 9))
     = Ok (ComponentArray [1, 2])
   \<and> snd (optimize (\<lambda>x. x - 1) python_division (\<lambda>s i. 0) 1 1 ''ab'' (KInt 2) (\<lambda>i j. 1) ''components'' 7 (\<lambda>i. 5))
     = (\<lambda>i. 5)
   \<and> fst (optimize (\<lambda>x. x - 1) python_division (\<lambda>s i. 0) 1 1 ''ab'' KOther (\<lambda>i j. 1) ''components'' 7 (\<lambda>i. 5))
     = Err ValueError
   \<and> snd (optimize (\<lambda>x. x - 1) python_division (\<lambda>s i. 0) 1 1 ''ab'' KOther (\<lambda>i j. 1) ''components'' 7 (\<lambda>i. 5))
     = (\<lambda>i. 5)
   \<and> snd (snd (lazy_distance base_compute_distance Map.empty 0 1 (\<lambda>i. 5))) = (\<lambda>i. 5)"
proof -
  have e: "optimize (\<lambda>x. x - 1) python_division (\<lambda>s i. 0) 1 1 ''ab'' (KInt 2) (\<lambda>i j. 1) ''components'' 7 (\<lambda>i. 5)
      = (Ok (ComponentArray [1, 2]), \<lambda>i. 5)"
    by (simp add: optimize_def optimize_body_def with_k_def numeral_2_eq_2 medoids_init_def agoras_def
        gamma_def sample_def Let_def advance_def unselected_def max_neighbours_of_def clusters_of_def
        cluster_of_def render_def first_item_def components_def py_setitem_def py_position_def upt_rec)
  have f: "optimize (\<lambda>x. x - 1) python_division (\<lambda>s i. 0) 1 1 ''ab'' KOther (\<lambda>i j. 1) ''components'' 7 (\<lambda>i. 5)
      = (Err ValueError, \<lambda>i. 5)"
    by (simp add: optimize_def optimize_body_def)
  note a = optimize_deterministic [where lg = "\<lambda>x. x - 1" and dv = python_division
      and seed_state = "\<lambda>s i. 0" and depth = 1 and fuel = 1 and p = "''ab''" and k = "KInt 2"
      and ?d0.0 = "\<lambda>i j. 1" and mode = "''components''" and seed = 7 and ?g1.0 = "\<lambda>i. 5"
      and ?g2.0 = "\<lambda>i. 9" and g = "\<lambda>i. 5" and compute = base_compute_distance
      and computed = Map.empty and i = 0 and j = 1]
  note b = optimize_deterministic [where lg = "\<lambda>x. x - 1" and dv = python_division
      and seed_state = "\<lambda>s i. 0" and depth = 1 and fuel = 1 and p = "''ab''" and k = KOther
      and ?d0.0 = "\<lambda>i j. 1" and mode = "''components''" and seed = 7 and ?g1.0 = "\<lambda>i. 5"
      and ?g2.0 = "\<lambda>i. 9" and g = "\<lambda>i. 5" and compute = base_compute_distance
      and computed = Map.empty and i = 0 and j = 1]
  from a b show ?thesis unfolding e f by simp
qed

text \<open>
  Claim C4. For every point list \<open>p\<close>, \<^verbatim>\<open>optimize(p, 1, distances, mode='components')\<close>
  takes the short cut \<^verbatim>\<open>return [p]\<close> before the mode is looked at: it returns the list
  holding the one cluster \<open>p\<close>, and not the array that maps every position to the
  cluster id 1, which is what the claim requires of mode \<^verbatim>\<open>components\<close>.
\<close>

theorem optimize_one_ignores_mode:
  "optimize lg dv seed_state depth fuel p (KInt 1) d0 ''components'' seed g = (Ok (ClusterLists [p]), g)
   \<and> ClusterLists [p] \<noteq> ComponentArray (replicate (length p) 1)"
  by (simp add: optimize_def)

text \<open>
  Claim C1. The partition claim fails for \<^verbatim>\<open>optimize\<close> in mode \<^verbatim>\<open>components\<close> at
  \<open>k = 1\<close>: for the two points \<open>x\<close>, \<open>y\<close> the result is the one-element list
  \<open>[[x, y]]\<close>, whatever the distances; it is no array of length 2 assigning a cluster id
  to each position.
\<close>

theorem optimize_one_components_no_array:
  "optimize lg dv seed_state depth fuel [x, y] (KInt 1) d0 ''components'' seed g
     = (Ok (ClusterLists [[x, y]]), g)
   \<and> (\<forall>cs. fst (optimize lg dv seed_state depth fuel [x, y] (KInt 1) d0 ''components'' seed g)
          \<noteq> Ok (ComponentArray cs))"
  by (simp add: optimize_def)

section \<open>The running cost of a local search\<close>

lemma next_random_swap_cost:
  "next_random_swap st g = (r, st', g') \<Longrightarrow> m_cost st' = m_cost st"
  by (auto simp: next_random_swap_def Let_def split: prod.splits step.splits list.splits sum.splits)

lemma accept_swap_cost:
  "accept_swap distance st i h t fast = Inr st' \<Longrightarrow> m_cost st' = mpf_round (m_cost st + t)"
  by (auto simp: accept_swap_def Let_def reset_random_swap_def ebind_eq_Inr split: if_splits)

lemma swap_Stop:
  "next_random_swap st g = (Stop, st1, g1) \<Longrightarrow> swap distance st g = (Inr (False, st1), g1)"
  by (simp add: swap_def)

lemma swap_Raise:
  "next_random_swap st g = (Raise e, st1, g1) \<Longrightarrow> swap distance st g = (Inl e, g1)"
  by (simp add: swap_def)

lemma swap_Yield_error:
  "next_random_swap st g = (Yield (i, h), st1, g1) \<Longrightarrow> calculate_t distance st1 i h = Inl e
   \<Longrightarrow> swap distance st g = (Inl e, g1)"
  by (simp add: swap_def)

lemma swap_Yield_reject:
  "next_random_swap st g = (Yield (i, h), st1, g1) \<Longrightarrow> calculate_t distance st1 i h = Inr (ts, fast)
   \<Longrightarrow> \<not> fsum ts < 0 \<Longrightarrow> swap distance st g = (Inr (False, st1), g1)"
  by (simp add: swap_def)

lemma swap_Yield_accept:
  "next_random_swap st g = (Yield (i, h), st1, g1) \<Longrightarrow> calculate_t distance st1 i h = Inr (ts, fast)
   \<Longrightarrow> fsum ts < 0
   \<Longrightarrow> swap distance st g
       = (ebind (accept_swap distance st1 i h (fsum ts) fast) (\<lambda>st''. Inr (True, st'')), g1)"
  by (simp add: swap_def)

lemma swap_cases:
  assumes "swap distance st g = (Inr (acc, st'), g')"
  shows "(acc \<longleftrightarrow> (\<exists>t. proposed_delta distance st g = Some t \<and> t < 0))
       \<and> (acc \<longrightarrow> (\<exists>t. proposed_delta distance st g = Some t
                        \<and> m_cost st' = mpf_round (m_cost st + t)))
       \<and> (\<not> acc \<longrightarrow> m_cost st' = m_cost st)"
proof -
  obtain r st1 g1 where n: "next_random_swap st g = (r, st1, g1)"
    by (cases "next_random_swap st g") auto
  have c1: "m_cost st1 = m_cost st" using next_random_swap_cost [OF n] .
  show ?thesis
  proof (cases r)
    case Stop
    with n have "swap distance st g = (Inr (False, st1), g1)" by (simp add: swap_Stop)
    with assms have "\<not> acc" "st' = st1" by simp_all
    moreover have "proposed_delta distance st g = None" using n Stop by (simp add: proposed_delta_def)
    ultimately show ?thesis using c1 by simp
  next
    case (Raise e)
    with n have "swap distance st g = (Inl e, g1)" by (simp add: swap_Raise)
    with assms show ?thesis by simp
  next
    case (Yield ih)
    obtain i h where ih: "ih = (i, h)" by (cases ih)
    have n': "next_random_swap st g = (Yield (i, h), st1, g1)" using n Yield ih by simp
    show ?thesis
    proof (cases "calculate_t distance st1 i h")
      case (Inl e)
      from swap_Yield_error [OF n' Inl] assms show ?thesis by simp
    next
      case (Inr tf)
      obtain ts fast where tf: "tf = (ts, fast)" by (cases tf)
      have ct: "calculate_t distance st1 i h = Inr (ts, fast)" using Inr tf by simp
      have pd: "proposed_delta distance st g = Some (fsum ts)"
        using n' ct by (simp add: proposed_delta_def swap_delta_def)
      show ?thesis
      proof (cases "fsum ts < 0")
        case True
        from swap_Yield_accept [OF n' ct True] assms
        have "ebind (accept_swap distance st1 i h (fsum ts) fast) (\<lambda>st''. Inr (True, st'')) = Inr (acc, st')"
          by simp
        then have acc: "acc" and a: "accept_swap distance st1 i h (fsum ts) fast = Inr st'"
          by (auto simp: ebind_eq_Inr)
        from accept_swap_cost [OF a] c1 have "m_cost st' = mpf_round (m_cost st + fsum ts)" by simp
        with acc pd True show ?thesis by simp
      next
        case False
        from swap_Yield_reject [OF n' ct False] assms have "\<not> acc" "st' = st1" by simp_all
        with pd False c1 show ?thesis by simp
      qed
    qed
  qed
qed

lemma rounded_sum_le:
  assumes "is_mpf c" "t < 0"
  shows "mpf_round (c + t) \<le> c"
proof -
  have "mpf_round (c + t) \<le> mpf_round c" using assms(2) by (intro mpf_round_mono) simp
  with assms(1) show ?thesis by (simp add: is_mpf_def)
qed

lemma swap_cost_le:
  assumes "swap distance st g = (Inr (acc, st'), g')" "is_mpf (m_cost st)"
  shows "m_cost st' \<le> m_cost st \<and> is_mpf (m_cost st')"
proof (cases acc)
  case True
  with swap_cases [OF assms(1)] obtain t where
    t: "proposed_delta distance st g = Some t" "t < 0" by blast
  from True swap_cases [OF assms(1)] obtain t' where
    t': "proposed_delta distance st g = Some t'" "m_cost st' = mpf_round (m_cost st + t')" by blast
  from t(1) t'(1) have "t' = t" by simp
  with t' t(2) rounded_sum_le [OF assms(2)] show ?thesis by (simp add: is_mpf_round)
next
  case False
  with swap_cases [OF assms(1)] assms(2) show ?thesis by simp
qed

lemma search_step_cost:
  assumes "search_step distance mx (j, st, g) (j', st', g')" "is_mpf (m_cost st)"
  shows "m_cost st' \<le> m_cost st \<and> is_mpf (m_cost st')"
  using assms(1)
proof (cases rule: search_step.cases)
  case accepted
  from accepted(3) assms(2) show ?thesis by (rule swap_cost_le)
next
  case rejected
  from rejected(3) assms(2) show ?thesis by (rule swap_cost_le)
qed

lemma search_steps_cost:
  assumes "(search_step distance mx)\<^sup>*\<^sup>* s s'" "is_mpf (m_cost (fst (snd s)))"
  shows "m_cost (fst (snd s')) \<le> m_cost (fst (snd s)) \<and> is_mpf (m_cost (fst (snd s')))"
  using assms
proof (induction rule: rtranclp_induct)
  case base
  then show ?case by simp
next
  case (step y z)
  obtain j1 st1 g1 where y: "y = (j1, st1, g1)" by (cases y)
  obtain j2 st2 g2 where z: "z = (j2, st2, g2)" by (cases z)
  from step.IH [OF step.prems] have i: "m_cost st1 \<le> m_cost (fst (snd s))" "is_mpf (m_cost st1)"
    unfolding y by simp_all
  from step.hyps(2) i(2) have "m_cost st2 \<le> m_cost st1 \<and> is_mpf (m_cost st2)"
    unfolding y z by (rule search_step_cost)
  with i(1) show ?case unfolding z by simp
qed

lemma medoids_init_cost:
  assumes "medoids_init lg fuel distance n k g = (Ok st, g')"
  shows "is_mpf (m_cost st)"
proof -
  obtain r g1 where ag: "agoras lg fuel n k distance g = (r, g1)"
    by (cases "agoras lg fuel n k distance g")
  from assms ag obtain seed where r: "r = Ok seed" by (cases r) (simp_all add: medoids_init_def)
  let ?m = "ebind (unselected (sort seed) n) (\<lambda>us.
              ebind (update_clusters distance (sort seed) (replicate n None) us) (\<lambda>(ds, clusters').
                Inr \<lparr>m_n = n, m_k = k, m_random_swap = shuffled_tuples [k, int n - k],
                     m_selected = sort seed, m_clusters = clusters', m_cost = fsum ds\<rparr>))"
  from assms ag r have "lift ?m = Ok st" by (simp add: medoids_init_def Let_def)
  then have "?m = Inr st" by (cases ?m) simp_all
  then obtain ds where "m_cost st = fsum ds" by (auto simp: ebind_eq_Inr)
  then show ?thesis by (simp add: fsum_def is_mpf_round)
qed

lemma local_search_steps:
  "local_search fuel distance mx j st g = (Ok st', g')
   \<Longrightarrow> \<exists>j'. (search_step distance mx)\<^sup>*\<^sup>* (j, st, g) (j', st', g') \<and> \<not> real_of_int j' \<le> mx"
proof (induction fuel arbitrary: j st g)
  case 0
  then show ?case by simp
next
  case (Suc fuel)
  show ?case
  proof (cases "real_of_int j \<le> mx")
    case False
    with Suc.prems have "st' = st" "g' = g" by auto
    with False show ?thesis by blast
  next
    case True
    obtain r g1 where sw: "swap distance st g = (r, g1)" by (cases "swap distance st g")
    show ?thesis
    proof (cases r)
      case (Inl e)
      with Suc.prems True sw show ?thesis by simp
    next
      case (Inr b)
      obtain acc st1 where b: "b = (acc, st1)" by (cases b)
      show ?thesis
      proof (cases acc)
        case True
        with Suc.prems \<open>real_of_int j \<le> mx\<close> sw Inr b
        have "local_search fuel distance mx 1 st1 g1 = (Ok st', g')" by simp
        from Suc.IH [OF this] obtain j' where
          j': "(search_step distance mx)\<^sup>*\<^sup>* (1, st1, g1) (j', st', g')" "\<not> real_of_int j' \<le> mx" by blast
        have "search_step distance mx (j, st, g) (1, st1, g1)"
          using search_step.accepted [OF \<open>real_of_int j \<le> mx\<close>] sw Inr b True by simp
        with j' show ?thesis by (meson converse_rtranclp_into_rtranclp)
      next
        case False
        with Suc.prems \<open>real_of_int j \<le> mx\<close> sw Inr b
        have "local_search fuel distance mx (j + 1) st1 g1 = (Ok st', g')" by simp
        from Suc.IH [OF this] obtain j' where
          j': "(search_step distance mx)\<^sup>*\<^sup>* (j + 1, st1, g1) (j', st', g')" "\<not> real_of_int j' \<le> mx" by blast
        have "search_step distance mx (j, st, g) (j + 1, st1, g1)"
          using search_step.rejected [OF \<open>real_of_int j \<le> mx\<close>] sw Inr b False by simp
        with j' show ?thesis by (meson converse_rtranclp_into_rtranclp)
      qed
    qed
  qed
qed

text \<open>
  Claim C5, as amended. A call of \<^verbatim>\<open>swap\<close> that returns has accepted the proposed swap
  exactly when the cost delta \<open>t\<close> it computed for it is negative; an accepted swap
  replaces the running cost by the rounded sum of the cost and \<open>t\<close>, and a rejected one
  leaves it as it was. The running cost being a 53-bit number (as \<^verbatim>\<open>fsum\<close> gives it to a
  fresh table, lemma \<open>medoids_init_cost\<close>), it remains one and is never above what it
  was: along any number of passes of the loop of a local search the running cost never
  increases, and the cost of the medoid table a local search returns is at most the
  cost it started with.
\<close>

theorem swap_accepted_iff_negative_cost_not_above:
  "(swap distance st g = (Inr (acc, st'), g') \<longrightarrow>
      (acc \<longleftrightarrow> (\<exists>t. proposed_delta distance st g = Some t \<and> t < 0))
      \<and> (acc \<longrightarrow> (\<exists>t. proposed_delta distance st g = Some t
                       \<and> m_cost st' = mpf_round (m_cost st + t)))
      \<and> (\<not> acc \<longrightarrow> m_cost st' = m_cost st)
      \<and> (is_mpf (m_cost st) \<longrightarrow> m_cost st' \<le> m_cost st \<and> is_mpf (m_cost st')))
   \<and> (is_mpf (m_cost st) \<and> (search_step distance mx)\<^sup>*\<^sup>* (j, st, g) (j2, st2, g2)
        \<longrightarrow> m_cost st2 \<le> m_cost st)
   \<and> (is_mpf (m_cost st) \<and> local_search fuel distance mx j st g = (Ok st3, g3) \<longrightarrow>
        (\<exists>j3. (search_step distance mx)\<^sup>*\<^sup>* (j, st, g) (j3, st3, g3)) \<and> m_cost st3 \<le> m_cost st)"
proof (intro conjI impI)
  assume a: "swap distance st g = (Inr (acc, st'), g')"
  show "acc \<longleftrightarrow> (\<exists>t. proposed_delta distance st g = Some t \<and> t < 0)"
    using swap_cases [OF a] by blast
  show "\<not> acc \<Longrightarrow> m_cost st' = m_cost st" using swap_cases [OF a] by blast
  show "acc \<Longrightarrow> \<exists>t. proposed_delta distance st g = Some t \<and> m_cost st' = mpf_round (m_cost st + t)"
    using swap_cases [OF a] by blast
  show "is_mpf (m_cost st) \<Longrightarrow> m_cost st' \<le> m_cost st" using swap_cost_le [OF a] by blast
  show "is_mpf (m_cost st) \<Longrightarrow> is_mpf (m_cost st')" using swap_cost_le [OF a] by blast
next
  assume "is_mpf (m_cost st) \<and> (search_step distance mx)\<^sup>*\<^sup>* (j, st, g) (j2, st2, g2)"
  then show "m_cost st2 \<le> m_cost st" using search_steps_cost [of distance mx "(j, st, g)" "(j2, st2, g2)"] by simp
next
  assume a: "is_mpf (m_cost st) \<and> local_search fuel distance mx j st g = (Ok st3, g3)"
  then obtain j3 where
    s: "(search_step distance mx)\<^sup>*\<^sup>* (j, st, g) (j3, st3, g3)" using local_search_steps by blast
  then show "\<exists>j3. (search_step distance mx)\<^sup>*\<^sup>* (j, st, g) (j3, st3, g3)" by blast
  from search_steps_cost [OF s] a show "m_cost st3 \<le> m_cost st" by simp
qed

theorem swap_accepted_iff_negative_cost_not_above_witness:
  "fst (swap (\<lambda>i j. Inr (real_of_int \<bar>(if i = 2 then 10 else i) - (if j = 2 then 10 else j)\<bar>))
          \<lparr>m_n = 3, m_k = 2, m_random_swap = shuffled_tuples [2, 1], m_selected = [0, 1],
           m_clusters = [None, None, Some (1, 0)], m_cost = 9\<rparr> (\<lambda>i. 0))
     = Inr (True, \<lparr>m_n = 3, m_k = 2, m_random_swap = shuffled_tuples [2, 1], m_selected = [1, 2],
                  m_clusters = [Some (1, 2), None, Some (1, 0)], m_cost = 1\<rparr>)
   \<and> is_mpf 9
   \<and> (\<exists>t. proposed_delta (\<lambda>i j. Inr (real_of_int \<bar>(if i = 2 then 10 else i) - (if j = 2 then 10 else j)\<bar>))
          \<lparr>m_n = 3, m_k = 2, m_random_swap = shuffled_tuples [2, 1], m_selected = [0, 1],
           m_clusters = [None, None, Some (1, 0)], m_cost = 9\<rparr> (\<lambda>i. 0) = Some t
        \<and> t < 0 \<and> 1 = mpf_round (9 + t))
   \<and> (\<exists>st3 g3. local_search (Suc (Suc (Suc 0)))
          (\<lambda>i j. Inr (real_of_int \<bar>(if i = 2 then 10 else i) - (if j = 2 then 10 else j)\<bar>)) 1 1
          \<lparr>m_n = 3, m_k = 2, m_random_swap = shuffled_tuples [2, 1], m_selected = [0, 1],
           m_clusters = [None, None, Some (1, 0)], m_cost = 9\<rparr> (\<lambda>i. 0) = (Ok st3, g3)
        \<and> m_cost st3 \<le> 9)"
proof -
  define D :: local_dist
    where "D = (\<lambda>i j. Inr (real_of_int \<bar>(if i = 2 then 10 else i) - (if j = 2 then 10 else j)\<bar>))"
  define ST where "ST = \<lparr>m_n = 3, m_k = 2, m_random_swap = shuffled_tuples [2, 1], m_selected = [0, 1],
           m_clusters = [None, None, Some (1, 0)], m_cost = 9\<rparr>"
  define ST1 where "ST1 = \<lparr>m_n = 3, m_k = 2, m_random_swap = shuffled_tuples [2, 1], m_selected = [1, 2],
           m_clusters = [Some (1, 2), None, Some (1, 0)], m_cost = 1\<rparr>"
  define ST2 where "ST2 = \<lparr>m_n = 3, m_k = 2,
           m_random_swap = \<lparr>overrides = [0 \<mapsto> 0], cursor = 1, bound = 2, finished = False\<rparr>,
           m_selected = [1, 2], m_clusters = [Some (1, 2), None, Some (1, 0)], m_cost = 1\<rparr>"
  define G :: rng where "G = (\<lambda>i. 0)"
  have r1: "mpf_round (- 8) = - 8" using mpf_round_int [of "- 8" 0] by simp
  have r2: "mpf_round 1 = 1" using mpf_round_int [of 1 0] by simp
  have r3: "mpf_round 8 = 8" using mpf_round_int [of 8 0] by simp
  have m9: "is_mpf 9" using is_mpf_int [of 9] by simp
  note ev = swap_def next_random_swap_def tuples_next_def shuffled_next_def shuffled_tuples_def
    shuffled_range_def randint_def advance_def nth_of_def calculate_t_def min_of_def nearest_medoid_def
    py_getitem_def py_position_def unselected_def accept_swap_def reset_random_swap_def py_setitem_def
    Let_def less_eq_prod_def less_prod_def numeral_3_eq_3 upt_rec fsum_def r1 r2 r3
  have e1: "swap D ST G = (Inr (True, ST1), G)"
    unfolding D_def ST_def ST1_def G_def by (simp add: ev)
  have e2: "swap D ST1 G = (Inr (False, ST2), G)"
    unfolding D_def ST1_def ST2_def G_def by (simp add: ev)
  have e3: "local_search (Suc (Suc (Suc 0))) D 1 1 ST G = (Ok ST2, G)"
    by (simp add: e1 e2)
  have m: "is_mpf (m_cost ST)" using m9 by (simp add: ST_def)
  note t = swap_accepted_iff_negative_cost_not_above
    [of D ST G True ST1 G 1 1 1 ST1 G "Suc (Suc (Suc 0))" ST2 G]
  from t e1 obtain t1 where p: "proposed_delta D ST G = Some t1" "t1 < 0" by blast
  from t e1 obtain t2 where q: "proposed_delta D ST G = Some t2" "m_cost ST1 = mpf_round (m_cost ST + t2)"
    by blast
  from p(1) q(1) have "t2 = t1" by simp
  with q(2) have q': "1 = mpf_round (9 + t1)" by (simp add: ST_def ST1_def)
  from t e3 m have c: "m_cost ST2 \<le> m_cost ST" by blast
  have c': "m_cost ST2 \<le> 9" using c by (simp add: ST_def)
  from e1 m9 p q' e3 c' show ?thesis
    unfolding D_def ST_def ST1_def G_def by auto
qed

text \<open>
  Claim C5 as stated fails: an accepted swap need not change the running cost by
  \<open>t\<close>, nor lower it. Four points, the medoids 0 and 1, with \<open>d(0,1) = 1/2\<close>,
  \<open>d(0,2) = 3/2\<close>, \<open>d(1,2) = 1\<close> and point 3 at the distance \<open>10\<^sup>1\<^sup>7\<close> from the others.
  The cost of the table is \<^verbatim>\<open>fsum([1, 1e17])\<close>, that is \<open>10\<^sup>1\<^sup>7\<close>. The swap of medoid 0 for
  point 2 computes \<open>t = -1/2\<close> and is accepted, and the rounded sum of \<open>10\<^sup>1\<^sup>7\<close> and
  \<open>-1/2\<close> is \<open>10\<^sup>1\<^sup>7\<close> again.
\<close>

theorem accepted_swap_keeps_cost:
  "fst (swap (\<lambda>i j. Inr (if i = j then 0 else if i = 3 \<or> j = 3 then 10 ^ 17
                          else if i + j = 1 then 1 / 2 else if i + j = 2 then 3 / 2 else 1))
          \<lparr>m_n = 4, m_k = 2, m_random_swap = shuffled_tuples [2, 2], m_selected = [0, 1],
           m_clusters = [None, None, Some (1, 0), Some (0, 1)], m_cost = 10 ^ 17\<rparr> (\<lambda>i. 0))
     = Inr (True, \<lparr>m_n = 4, m_k = 2, m_random_swap = shuffled_tuples [2, 2], m_selected = [1, 2],
                  m_clusters = [Some (1, 2), None, Some (1, 0), Some (1, 2)], m_cost = 10 ^ 17\<rparr>)
   \<and> proposed_delta (\<lambda>i j. Inr (if i = j then 0 else if i = 3 \<or> j = 3 then 10 ^ 17
                          else if i + j = 1 then 1 / 2 else if i + j = 2 then 3 / 2 else 1))
          \<lparr>m_n = 4, m_k = 2, m_random_swap = shuffled_tuples [2, 2], m_selected = [0, 1],
           m_clusters = [None, None, Some (1, 0), Some (0, 1)], m_cost = 10 ^ 17\<rparr> (\<lambda>i. 0)
       = Some (- (1 / 2))
   \<and> fsum [1, 10 ^ 17] = 10 ^ 17"
proof -
  define D :: local_dist
    where "D = (\<lambda>i j. Inr (if i = j then 0 else if i = 3 \<or> j = 3 then 10 ^ 17
                          else if i + j = 1 then 1 / 2 else if i + j = 2 then 3 / 2 else 1))"
  define ST where "ST = \<lparr>m_n = 4, m_k = 2, m_random_swap = shuffled_tuples [2, 2], m_selected = [0, 1],
           m_clusters = [None, None, Some (1, 0), Some (0, 1)], m_cost = 10 ^ 17\<rparr>"
  define ST1 where "ST1 = \<lparr>m_n = 4, m_k = 2, m_random_swap = shuffled_tuples [2, 2], m_selected = [1, 2],
            m_clusters = [Some (1, 2), None, Some (1, 0), Some (1, 2)], m_cost = 10 ^ 17\<rparr>"
  define G :: rng where "G = (\<lambda>i. 0)"
  have "round_pos (199999999999999999 / 2) = 100000000000000000"
    by (subst round_pos_eval [where e = 56]) (simp_all add: round_half_even_def)
  then have r1: "mpf_round (199999999999999999 / 2) = 100000000000000000" by (simp add: mpf_round_def)
  have "round_pos 100000000000000001 = 100000000000000000"
    by (subst round_pos_eval [where e = 56]) (simp_all add: round_half_even_def)
  then have r2: "mpf_round 100000000000000001 = 100000000000000000" by (simp add: mpf_round_def)
  have r3: "mpf_round (- (1 / 2)) = - (1 / 2)" using mpf_round_int [of "- 1" "- 1"] by simp
  have n4: "(4::nat) = Suc (Suc (Suc (Suc 0)))" by simp
  have "\<exists>rs. next_random_swap ST G = (Yield (0, 2), ST\<lparr>m_random_swap := rs\<rparr>, G)"
    unfolding ST_def G_def
    by (simp add: next_random_swap_def tuples_next_def shuffled_next_def shuffled_tuples_def
      shuffled_range_def randint_def advance_def nth_of_def py_getitem_def py_position_def Let_def)
  then obtain rs where n: "next_random_swap ST G = (Yield (0, 2), ST\<lparr>m_random_swap := rs\<rparr>, G)"
    by blast
  have a2: "unselected [0, 1] 4 = Inr [2, 3]"
    by (simp add: unselected_def n4 upt_rec)
  have a3: "calculate_t D (ST\<lparr>m_random_swap := rs\<rparr>) 0 2 = Inr ([1 / 2, - 1, 0], [(3, 1)])"
    unfolding ST_def D_def
    by (simp add: calculate_t_def min_of_def nearest_medoid_def py_getitem_def py_position_def a2)
  have b1: "apply_fast_updates D [1, 2] 0 [(3, 1)] [None, None, Some (1, 0), Some (0, 1)] [0]
             = Inr ([None, None, Some (1, 0), Some (1, 2)], [0])"
    unfolding D_def by (simp add: py_setitem_def py_position_def)
  have b2: "update_clusters D [1, 2] [None, None, Some (1, 0), Some (1, 2)] [0]
             = Inr ([1 / 2], [Some (1, 2), None, Some (1, 0), Some (1, 2)])"
    unfolding D_def by (simp add: py_setitem_def py_position_def less_eq_prod_def less_prod_def)
  have b3: "accept_swap D (ST\<lparr>m_random_swap := rs\<rparr>) 0 2 (- (1 / 2)) [(3, 1)] = Inr ST1"
    unfolding ST_def ST1_def
    by (simp add: accept_swap_def Let_def b1 b2 reset_random_swap_def r1
        del: apply_fast_updates.simps update_clusters.simps)
  have b4: "fsum [1 / 2, - 1, 0] = - (1 / 2)" by (simp add: fsum_def r3)
  have e1: "swap D ST G = (Inr (True, ST1), G)" by (simp add: swap_def n a3 b4 b3)
  have e2: "proposed_delta D ST G = Some (- (1 / 2))"
    by (simp add: proposed_delta_def swap_delta_def n a3 b4)
  have e3: "fsum [1, 10 ^ 17] = 10 ^ 17" by (simp add: fsum_def r2)
  from e1 e2 e3 show ?thesis unfolding D_def ST_def ST1_def G_def by simp
qed

section \<open>The heap and its position index\<close>

lemma mset_move_hole:
  assumes "i < length h" "j < length h" "i \<noteq> j"
  shows "mset (h[i := h ! j, j := xp]) = mset (h[i := xp])"
proof -
  let ?ls = "h[i := xp]"
  have "mset (?ls[j := ?ls ! i, i := ?ls ! j]) = mset ?ls"
    using assms by (intro mset_swap) simp_all
  moreover have "?ls[j := ?ls ! i, i := ?ls ! j] = h[i := h ! j, j := xp]"
    using assms by (auto simp: list_eq_iff_nth_eq nth_list_update)
  ultimately show ?thesis by simp
qed

lemma place_index:
  assumes "i < length h" "pos_except i h w" "ident xp < length w"
    and "\<forall>t < length h. t \<noteq> i \<longrightarrow> ident (h ! t) \<noteq> ident xp"
  shows "\<exists>h' w'. place xp i h w = Inr (h', w') \<and> h' = h[i := xp] \<and> length w' = length w
           \<and> position_index h' w'"
proof -
  have "position_index (h[i := xp]) (w[ident xp := i])"
    unfolding position_index_def
  proof (intro allI impI)
    fix s assume s: "s < length (h[i := xp])"
    show "ident (h[i := xp] ! s) < length (w[ident xp := i])
          \<and> w[ident xp := i] ! ident (h[i := xp] ! s) = s"
    proof (cases "s = i")
      case True
      with assms show ?thesis by simp
    next
      case False
      with s assms(2,4) have "ident (h ! s) < length w" "w ! ident (h ! s) = s" "ident (h ! s) \<noteq> ident xp"
        by (auto simp: pos_except_def)
      with False show ?thesis by simp
    qed
  qed
  with assms(3) show ?thesis by (simp add: place_def)
qed

lemma shiftdown_loop_index:
  assumes "i < length h" "e = length h - 1" "i < j" "pos_except i h w" "ident xp < length w"
    and "\<forall>t < length h. t \<noteq> i \<longrightarrow> ident (h ! t) \<noteq> ident xp"
  shows "\<exists>h' w'. shiftdown_loop xp e i j h w = Inr (h', w') \<and> length h' = length h
           \<and> length w' = length w \<and> mset h' = mset (h[i := xp]) \<and> position_index h' w'"
  using assms
proof (induction xp e i j h w rule: shiftdown_loop.induct)
  case (1 xp e i j h w)
  note pl = place_index [OF "1.prems"(1,4,5,6)]
  show ?case
  proof (cases "j \<le> e")
    case False
    then have "shiftdown_loop xp e i j h w = place xp i h w"
      by (subst shiftdown_loop.simps) simp
    with pl show ?thesis by auto
  next
    case True
    define j' where "j' = (if j < e \<and> h ! j > h ! (j + 1) then j + 1 else j)"
    have j': "j' \<le> e" "j \<le> j'" "j' < length h" "j' \<noteq> i"
      using True "1.prems"(1,2,3) by (auto simp: j'_def)
    show ?thesis
    proof (cases "xp \<le> h ! j'")
      case le: True
      have "shiftdown_loop xp e i j h w = place xp i h w"
        using True le by (subst shiftdown_loop.simps) (simp add: j'_def Let_def)
      with pl show ?thesis by auto
    next
      case nle: False
      define pp where "pp = ident (h ! j')"
      have pp: "pp < length w" "w ! pp = j'" "pp \<noteq> ident xp"
        using "1.prems"(4,6) j' by (auto simp: pos_except_def pp_def)
      let ?h = "h[i := h ! j']" and ?w = "w[pp := i]"
      have step: "shiftdown_loop xp e i j h w = shiftdown_loop xp e j' (2 * j' + 1) ?h ?w"
        using True nle pp(1) by (subst shiftdown_loop.simps) (simp add: j'_def Let_def pp_def)
      have pe: "pos_except j' ?h ?w"
        unfolding pos_except_def
      proof (intro allI impI)
        fix t assume t: "t < length ?h" "t \<noteq> j'"
        show "ident (?h ! t) < length ?w \<and> ?w ! ident (?h ! t) = t"
        proof (cases "t = i")
          case True
          with "1.prems"(1) pp show ?thesis by (simp add: pp_def)
        next
          case False
          with t "1.prems"(4) have a: "ident (h ! t) < length w" "w ! ident (h ! t) = t"
            by (auto simp: pos_except_def)
          with pp(2) t(2) have "ident (h ! t) \<noteq> pp" by auto
          with a False show ?thesis by simp
        qed
      qed
      have ne: "\<forall>t < length ?h. t \<noteq> j' \<longrightarrow> ident (?h ! t) \<noteq> ident xp"
      proof (intro allI impI)
        fix t assume t: "t < length ?h" "t \<noteq> j'"
        show "ident (?h ! t) \<noteq> ident xp"
        proof (cases "t = i")
          case True
          with "1.prems"(1) pp(3) show ?thesis by (simp add: pp_def)
        next
          case False
          with t "1.prems"(6) show ?thesis by simp
        qed
      qed
      have "\<exists>h' w'. shiftdown_loop xp e j' (2 * j' + 1) ?h ?w = Inr (h', w') \<and> length h' = length ?h
           \<and> length w' = length ?w \<and> mset h' = mset (?h[j' := xp]) \<and> position_index h' w'"
      proof (rule "1.IH" [OF True j'_def _ pp_def])
        show "\<not> xp \<le> h ! j'" by (rule nle)
        show "pp < length w" by (rule pp(1))
        show "j' < length ?h" using j' by simp
        show "e = length ?h - 1" using "1.prems"(2) by simp
        show "j' < 2 * j' + 1" by simp
        show "pos_except j' ?h ?w" by (rule pe)
        show "ident xp < length ?w" using "1.prems"(5) by simp
        show "\<forall>t < length ?h. t \<noteq> j' \<longrightarrow> ident (?h ! t) \<noteq> ident xp" by (rule ne)
      qed
      moreover have "mset (?h[j' := xp]) = mset (h[i := xp])"
        using mset_move_hole [OF "1.prems"(1) j'(3)] j'(4) by auto
      ultimately show ?thesis unfolding step by auto
    qed
  qed
qed

lemma shiftup_loop_index:
  assumes "i < length h" "pos_except i h w" "ident xp < length w"
    and "\<forall>t < length h. t \<noteq> i \<longrightarrow> ident (h ! t) \<noteq> ident xp"
  shows "\<exists>h' w'. shiftup_loop xp i h w = Inr (h', w') \<and> length h' = length h
           \<and> length w' = length w \<and> mset h' = mset (h[i := xp]) \<and> position_index h' w'"
  using assms
proof (induction xp i h w rule: shiftup_loop.induct)
  case (1 xp i h w)
  note pl = place_index [OF "1.prems"(1,2,3,4)]
  show ?case
  proof (cases "i = 0")
    case True
    then have "shiftup_loop xp i h w = place xp i h w"
      by (subst shiftup_loop.simps) simp
    with pl show ?thesis by auto
  next
    case False
    define j where "j = (i + 1) div 2 - 1"
    have j: "j < i" "j < length h" "j \<noteq> i"
      using False "1.prems"(1) by (auto simp: j_def)
    show ?thesis
    proof (cases "h ! j \<le> xp")
      case le: True
      have "shiftup_loop xp i h w = place xp i h w"
        using False le by (subst shiftup_loop.simps) (simp add: j_def Let_def)
      with pl show ?thesis by auto
    next
      case nle: False
      define pp where "pp = ident (h ! j)"
      have pp: "pp < length w" "w ! pp = j" "pp \<noteq> ident xp"
        using "1.prems"(2,4) j by (auto simp: pos_except_def pp_def)
      let ?h = "h[i := h ! j]" and ?w = "w[pp := i]"
      have step: "shiftup_loop xp i h w = shiftup_loop xp j ?h ?w"
        using False nle pp(1) by (subst shiftup_loop.simps) (simp add: j_def Let_def pp_def)
      have pe: "pos_except j ?h ?w"
        unfolding pos_except_def
      proof (intro allI impI)
        fix t assume t: "t < length ?h" "t \<noteq> j"
        show "ident (?h ! t) < length ?w \<and> ?w ! ident (?h ! t) = t"
        proof (cases "t = i")
          case True
          with "1.prems"(1) pp show ?thesis by (simp add: pp_def)
        next
          case F: False
          with t "1.prems"(2) have a: "ident (h ! t) < length w" "w ! ident (h ! t) = t"
            by (auto simp: pos_except_def)
          with pp(2) t(2) have "ident (h ! t) \<noteq> pp" by auto
          with a F show ?thesis by simp
        qed
      qed
      have ne: "\<forall>t < length ?h. t \<noteq> j \<longrightarrow> ident (?h ! t) \<noteq> ident xp"
      proof (intro allI impI)
        fix t assume t: "t < length ?h" "t \<noteq> j"
        show "ident (?h ! t) \<noteq> ident xp"
        proof (cases "t = i")
          case True
          with "1.prems"(1) pp(3) show ?thesis by (simp add: pp_def)
        next
          case F: False
          with t "1.prems"(4) show ?thesis by simp
        qed
      qed
      have "\<exists>h' w'. shiftup_loop xp j ?h ?w = Inr (h', w') \<and> length h' = length ?h
           \<and> length w' = length ?w \<and> mset h' = mset (?h[j := xp]) \<and> position_index h' w'"
      proof (rule "1.IH" [OF False j_def _ pp_def])
        show "\<not> h ! j \<le> xp" by (rule nle)
        show "pp < length w" by (rule pp(1))
        show "j < length ?h" using j by simp
        show "pos_except j ?h ?w" by (rule pe)
        show "ident xp < length ?w" using "1.prems"(3) by simp
        show "\<forall>t < length ?h. t \<noteq> j \<longrightarrow> ident (?h ! t) \<noteq> ident xp" by (rule ne)
      qed
      moreover have "mset (?h[j := xp]) = mset (h[i := xp])"
        using mset_move_hole [OF "1.prems"(1) j(2)] j(3) by auto
      ultimately show ?thesis unfolding step by auto
    qed
  qed
qed

lemma heap_property_parent:
  "heap_property h \<longleftrightarrow> (\<forall>c. 0 < c \<and> c < length h \<longrightarrow> h ! parent c \<le> h ! c)"
proof
  assume hp: "heap_property h"
  show "\<forall>c. 0 < c \<and> c < length h \<longrightarrow> h ! parent c \<le> h ! c"
  proof (intro allI impI)
    fix c assume c: "0 < c \<and> c < length h"
    then have "c = 2 * parent c + 1 \<or> c = 2 * parent c + 2" "parent c < length h"
      by (auto simp: parent_def) (presburger+)?
    with hp c show "h ! parent c \<le> h ! c" unfolding heap_property_def by metis
  qed
next
  assume p: "\<forall>c. 0 < c \<and> c < length h \<longrightarrow> h ! parent c \<le> h ! c"
  show "heap_property h"
    unfolding heap_property_def
  proof (intro allI impI conjI)
    fix i assume "i < length h" "2 * i + 1 < length h"
    with p [rule_format, of "2 * i + 1"] show "h ! i \<le> h ! (2 * i + 1)" by (simp add: parent_def)
  next
    fix i assume "i < length h" "2 * i + 2 < length h"
    with p [rule_format, of "2 * i + 2"] show "h ! i \<le> h ! (2 * i + 2)" by (simp add: parent_def)
  qed
qed

lemma parent_less: "0 < c \<Longrightarrow> parent c < c"
  by (simp add: parent_def)

lemma parent_children: "0 < c \<Longrightarrow> parent c = i \<longleftrightarrow> c = 2 * i + 1 \<or> c = 2 * i + 2"
  by (simp add: parent_def) presburger

lemma parent_shiftup: "0 < i \<Longrightarrow> (i + 1) div 2 - 1 = parent i"
  unfolding parent_def by presburger

lemma place_result: "place xp i h w = Inr (h', w') \<Longrightarrow> h' = h[i := xp]"
  by (auto simp: place_def split: if_splits)

lemma down_final:
  assumes "i < length h" "down_inv xp h i"
    and "\<forall>c. 0 < c \<and> c < length h \<and> parent c = i \<longrightarrow> xp \<le> h ! c"
  shows "heap_property (h[i := xp])"
  unfolding heap_property_parent
proof (intro allI impI)
  fix c assume c: "0 < c \<and> c < length (h[i := xp])"
  then have pc: "parent c < c" "parent c < length h" using parent_less [of c] by auto
  show "h[i := xp] ! parent c \<le> h[i := xp] ! c"
  proof (cases "c = i")
    case True
    with c assms(1,2) pc show ?thesis by (simp add: down_inv_def)
  next
    case False
    show ?thesis
    proof (cases "parent c = i")
      case True
      with c assms(1,3) False show ?thesis by simp
    next
      case F: False
      with c assms(2) False pc show ?thesis by (simp add: down_inv_def)
    qed
  qed
qed

lemma shiftdown_loop_heap:
  assumes "i < length h" "e = length h - 1" "j = 2 * i + 1" "down_inv xp h i"
    and "shiftdown_loop xp e i j h w = Inr (h', w')"
  shows "heap_property h'"
  using assms
proof (induction xp e i j h w rule: shiftdown_loop.induct)
  case (1 xp e i j h w)
  show ?case
  proof (cases "j \<le> e")
    case False
    then have "shiftdown_loop xp e i j h w = place xp i h w"
      by (subst shiftdown_loop.simps) simp
    with "1.prems"(5) have h': "h' = h[i := xp]" by (simp add: place_result)
    have "\<forall>c. 0 < c \<and> c < length h \<and> parent c = i \<longrightarrow> xp \<le> h ! c"
    proof (intro allI impI)
      fix c assume c: "0 < c \<and> c < length h \<and> parent c = i"
      then have "c = 2 * i + 1 \<or> c = 2 * i + 2" using parent_children [of c i] by simp
      with c False "1.prems"(2,3) have False by auto
      then show "xp \<le> h ! c" ..
    qed
    from down_final [OF "1.prems"(1,4) this] h' show ?thesis by simp
  next
    case True
    define j' where "j' = (if j < e \<and> h ! j > h ! (j + 1) then j + 1 else j)"
    have j'0: "j' = 2 * i + 1 \<or> j' = 2 * i + 2" "j' \<le> e"
      using True "1.prems"(3) by (auto simp: j'_def)
    then have j': "j' \<le> e" "j' < length h" "j' \<noteq> i" "0 < j'" "parent j' = i"
      using True "1.prems"(1,2,3) parent_children [of j' i] by auto
    have minc: "\<forall>c. 0 < c \<and> c < length h \<and> parent c = i \<longrightarrow> h ! j' \<le> h ! c"
    proof (intro allI impI)
      fix c assume c: "0 < c \<and> c < length h \<and> parent c = i"
      then have "c = j \<or> c = j + 1" using "1.prems"(3) parent_children [of c i] by auto
      then show "h ! j' \<le> h ! c"
      proof
        assume "c = j"
        then show ?thesis by (auto simp: j'_def)
      next
        assume c1: "c = j + 1"
        with c "1.prems"(2) have "j < e" by auto
        with c1 show ?thesis by (auto simp: j'_def)
      qed
    qed
    show ?thesis
    proof (cases "xp \<le> h ! j'")
      case le: True
      have "shiftdown_loop xp e i j h w = place xp i h w"
        using True le by (subst shiftdown_loop.simps) (simp add: j'_def Let_def)
      with "1.prems"(5) have h': "h' = h[i := xp]" by (simp add: place_result)
      have "\<forall>c. 0 < c \<and> c < length h \<and> parent c = i \<longrightarrow> xp \<le> h ! c"
      proof (intro allI impI)
        fix c assume "0 < c \<and> c < length h \<and> parent c = i"
        with minc have "h ! j' \<le> h ! c" by blast
        with le show "xp \<le> h ! c" by (rule order_trans)
      qed
      from down_final [OF "1.prems"(1,4) this] h' show ?thesis by simp
    next
      case nle: False
      define pp where "pp = ident (h ! j')"
      let ?h = "h[i := h ! j']" and ?w = "w[pp := i]"
      show ?thesis
      proof (cases "pp < length w")
        case False
        then have "shiftdown_loop xp e i j h w = Inl IndexError"
          using True nle by (subst shiftdown_loop.simps) (simp add: j'_def Let_def pp_def)
        with "1.prems"(5) show ?thesis by simp
      next
        case ppl: True
        have step: "shiftdown_loop xp e i j h w = shiftdown_loop xp e j' (2 * j' + 1) ?h ?w"
          using True nle ppl by (subst shiftdown_loop.simps) (simp add: j'_def Let_def pp_def)
        have inv: "down_inv xp ?h j'"
          unfolding down_inv_def
        proof (intro conjI allI impI)
          fix c assume c: "0 < c \<and> c < length ?h \<and> parent c \<noteq> j'"
          then have pc: "parent c < c" "parent c < length h" using parent_less [of c] by auto
          show "?h ! parent c \<le> ?h ! c"
          proof (cases "c = i")
            case True
            then have "0 < i" using c by simp
            have "parent i \<noteq> i" using parent_less [OF \<open>0 < i\<close>] by simp
            moreover have "h ! parent i \<le> h ! j'"
              using "1.prems"(4) \<open>0 < i\<close> j' by (simp add: down_inv_def)
            ultimately show ?thesis using True "1.prems"(1) by simp
          next
            case False
            show ?thesis
            proof (cases "parent c = i")
              case True
              with minc c have "h ! j' \<le> h ! c" by simp
              with True False "1.prems"(1) show ?thesis by simp
            next
              case F: False
              with "1.prems"(4) c have "h ! parent c \<le> h ! c" by (simp add: down_inv_def)
              with F False show ?thesis by simp
            qed
          qed
        next
          assume "0 < j'"
          show "?h ! parent j' \<le> xp" using j' nle "1.prems"(1) by simp
        next
          fix c assume "0 < j'" and c: "0 < c \<and> c < length ?h \<and> parent c = j'"
          then have "c \<noteq> i" using j' parent_less [of j'] parent_less [of c] by auto
          moreover have "h ! parent c \<le> h ! c"
            using "1.prems"(4) c j'(3) unfolding down_inv_def by (metis length_list_update)
          ultimately show "?h ! parent j' \<le> ?h ! c" using j' c "1.prems"(1) by simp
        qed
        have "heap_property h'"
        proof (rule "1.IH" [OF True j'_def _ pp_def])
          show "\<not> xp \<le> h ! j'" by (rule nle)
          show "pp < length w" by (rule ppl)
          show "j' < length ?h" using j' by simp
          show "e = length ?h - 1" using "1.prems"(2) by simp
          show "2 * j' + 1 = 2 * j' + 1" by simp
          show "down_inv xp ?h j'" by (rule inv)
          show "shiftdown_loop xp e j' (2 * j' + 1) ?h ?w = Inr (h', w')"
            using "1.prems"(5) step by simp
        qed
        then show ?thesis .
      qed
    qed
  qed
qed

lemma up_final:
  assumes "i < length h" "up_inv xp h i" "0 < i \<longrightarrow> h ! parent i \<le> xp"
  shows "heap_property (h[i := xp])"
  unfolding heap_property_parent
proof (intro allI impI)
  fix c assume c: "0 < c \<and> c < length (h[i := xp])"
  then have pc: "parent c < c" "parent c < length h" using parent_less [of c] by auto
  show "h[i := xp] ! parent c \<le> h[i := xp] ! c"
  proof (cases "c = i")
    case True
    with c assms(1,3) pc show ?thesis by simp
  next
    case False
    show ?thesis
    proof (cases "parent c = i")
      case True
      with c assms(1,2) False show ?thesis by (simp add: up_inv_def)
    next
      case F: False
      with c assms(2) False pc show ?thesis by (simp add: up_inv_def)
    qed
  qed
qed

lemma shiftup_loop_heap:
  assumes "i < length h" "up_inv xp h i" "shiftup_loop xp i h w = Inr (h', w')"
  shows "heap_property h'"
  using assms
proof (induction xp i h w rule: shiftup_loop.induct)
  case (1 xp i h w)
  show ?case
  proof (cases "i = 0")
    case True
    then have "shiftup_loop xp i h w = place xp i h w"
      by (subst shiftup_loop.simps) simp
    with "1.prems"(3) have h': "h' = h[i := xp]" by (simp add: place_result)
    from up_final [OF "1.prems"(1,2)] True h' show ?thesis by simp
  next
    case False
    define j where "j = (i + 1) div 2 - 1"
    have jp: "j = parent i" unfolding j_def using False parent_shiftup [of i] by blast
    have j: "j < i" "j < length h" "j \<noteq> i"
      using False "1.prems"(1) parent_less [of i] by (auto simp: jp)
    show ?thesis
    proof (cases "h ! j \<le> xp")
      case le: True
      have "shiftup_loop xp i h w = place xp i h w"
        using False le by (subst shiftup_loop.simps) (simp add: j_def Let_def)
      with "1.prems"(3) have h': "h' = h[i := xp]" by (simp add: place_result)
      from up_final [OF "1.prems"(1,2)] le jp h' show ?thesis by simp
    next
      case nle: False
      then have lt: "xp \<le> h ! j" by simp
      define pp where "pp = ident (h ! j)"
      let ?h = "h[i := h ! j]" and ?w = "w[pp := i]"
      show ?thesis
      proof (cases "pp < length w")
        case F: False
        then have "shiftup_loop xp i h w = Inl IndexError"
          using False nle by (subst shiftup_loop.simps) (simp add: j_def Let_def pp_def)
        with "1.prems"(3) show ?thesis by simp
      next
        case ppl: True
        have step: "shiftup_loop xp i h w = shiftup_loop xp j ?h ?w"
          using False nle ppl by (subst shiftup_loop.simps) (simp add: j_def Let_def pp_def)
        have a: "\<And>c. 0 < c \<Longrightarrow> c < length h \<Longrightarrow> c \<noteq> i \<Longrightarrow> h ! parent c \<le> h ! c"
          and b: "\<And>c. 0 < c \<Longrightarrow> c < length h \<Longrightarrow> parent c = i \<Longrightarrow> xp \<le> h ! c"
          and g: "\<And>c. 0 < c \<Longrightarrow> c < length h \<Longrightarrow> parent c = i \<Longrightarrow> h ! parent i \<le> h ! c"
          using "1.prems"(2) False unfolding up_inv_def by blast+
        have inv: "up_inv xp ?h j"
          unfolding up_inv_def
        proof (intro conjI allI impI)
          fix c assume c: "0 < c \<and> c < length ?h \<and> c \<noteq> j"
          then have pc: "parent c < c" "parent c < length h" using parent_less [of c] by auto
          show "?h ! parent c \<le> ?h ! c"
          proof (cases "c = i")
            case True
            with jp j "1.prems"(1) show ?thesis by simp
          next
            case ci: False
            show ?thesis
            proof (cases "parent c = i")
              case True
              from g [of c] c True have "h ! j \<le> h ! c" by (simp add: jp)
              with True ci "1.prems"(1) show ?thesis by simp
            next
              case F: False
              from a [of c] c ci have "h ! parent c \<le> h ! c" by simp
              with F ci show ?thesis by simp
            qed
          qed
        next
          fix c assume c: "0 < c \<and> c < length ?h \<and> parent c = j"
          show "xp \<le> ?h ! c"
          proof (cases "c = i")
            case True
            with lt "1.prems"(1) show ?thesis by simp
          next
            case ci: False
            from a [of c] c ci have "h ! j \<le> h ! c" by simp
            with lt have "xp \<le> h ! c" by (rule order_trans)
            with ci show ?thesis by simp
          qed
        next
          fix c assume j0: "0 < j" and c: "0 < c \<and> c < length ?h \<and> parent c = j"
          have pj: "parent j < j" using parent_less [OF j0] .
          then have pji: "parent j \<noteq> i" using j by simp
          have "h ! parent j \<le> h ! j" using a [of j] j0 j by simp
          moreover have "h ! j \<le> ?h ! c"
          proof (cases "c = i")
            case True
            with "1.prems"(1) show ?thesis by simp
          next
            case ci: False
            from a [of c] c ci have "h ! j \<le> h ! c" by simp
            with ci show ?thesis by simp
          qed
          ultimately show "?h ! parent j \<le> ?h ! c" using pji by simp
        qed
        show ?thesis
        proof (rule "1.IH" [OF False j_def _ pp_def])
          show "\<not> h ! j \<le> xp" by (rule nle)
          show "pp < length w" by (rule ppl)
          show "j < length ?h" using j by simp
          show "up_inv xp ?h j" by (rule inv)
          show "shiftup_loop xp j ?h ?w = Inr (h', w')" using "1.prems"(3) step by simp
        qed
      qed
    qed
  qed
qed

lemma pos_except_update:
  "s < length h \<Longrightarrow> pos_except s h w \<Longrightarrow> pos_except s (h[s := xp]) w"
  by (simp add: pos_except_def)

lemma position_index_from_except:
  assumes "s < length h" "pos_except s h w" "ident (h ! s) < length w" "w ! ident (h ! s) = s"
  shows "position_index h w"
  unfolding position_index_def
proof (intro allI impI)
  fix t assume "t < length h"
  with assms show "ident (h ! t) < length w \<and> w ! ident (h ! t) = t"
    by (cases "t = s") (auto simp: pos_except_def)
qed

lemma position_index_except: "position_index h w \<Longrightarrow> pos_except s h w"
  by (simp add: position_index_def pos_except_def)

lemma position_index_distinct:
  assumes "position_index h w" "s < length h" "t < length h" "s \<noteq> t"
  shows "ident (h ! s) \<noteq> ident (h ! t)"
proof
  assume e: "ident (h ! s) = ident (h ! t)"
  from assms(1,2) have "w ! ident (h ! s) = s" unfolding position_index_def by blast
  moreover from assms(1,3) have "w ! ident (h ! t) = t" unfolding position_index_def by blast
  ultimately show False using e assms(4) by simp
qed

lemma heap_property_parentD:
  fixes h :: "'u::linorder entry list"
  shows "heap_property h \<Longrightarrow> 0 < c \<Longrightarrow> c < length h \<Longrightarrow> h ! parent c \<le> h ! c"
  by (simp add: heap_property_parent)

lemma update_spec:
  assumes s: "s < length h" and ne: "xp \<noteq> h ! s" and pe: "pos_except s h w"
    and il: "ident xp < length w" and ws: "w ! ident xp = s"
    and fresh: "\<forall>t < length h. t \<noteq> s \<longrightarrow> ident (h ! t) \<noteq> ident xp"
  shows "\<exists>h' w'. update s xp h w = Inr (h', w') \<and> length h' = length h \<and> length w' = length w
           \<and> mset h' = mset (h[s := xp]) \<and> position_index h' w'
           \<and> (heap_property h \<longrightarrow> heap_property h')"
proof -
  let ?h = "h[s := xp]"
  have pe1: "pos_except s ?h w" using pos_except_update [OF s pe] .
  have pi1: "position_index ?h w"
    by (rule position_index_from_except [OF _ pe1]) (use s il ws in simp_all)
  have fresh1: "\<forall>t < length ?h. t \<noteq> s \<longrightarrow> ident (?h ! t) \<noteq> ident xp"
    using fresh by simp
  have s1: "s < length ?h" using s by simp
  note hp = heap_property_parentD [of h]
  show ?thesis
  proof (cases "xp > h ! s")
    case gt: True
    have u: "update s xp h w = shiftdown s ?h w"
      using s ne gt by (simp add: update_def getitem_def)
    show ?thesis
    proof (cases "2 * s + 1 > length h - 1")
      case True
      then have sd: "shiftdown s ?h w = Inr (?h, w)" by (simp add: shiftdown_def Let_def)
      have "heap_property h \<Longrightarrow> heap_property ?h"
        unfolding heap_property_parent [of ?h]
      proof (intro allI impI)
        fix c assume H: "heap_property h" and c: "0 < c \<and> c < length ?h"
        then have pc: "parent c < c" using parent_less [of c] by simp
        have pcs: "parent c \<noteq> s"
        proof
          assume "parent c = s"
          then have "c = 2 * s + 1 \<or> c = 2 * s + 2" using parent_children [of c s] c by simp
          with True c show False by auto
        qed
        from hp [OF H, of c] c have le: "h ! parent c \<le> h ! c" by simp
        show "?h ! parent c \<le> ?h ! c"
        proof (cases "c = s")
          case True
          with le gt pcs s show ?thesis by simp
        next
          case False
          with le pcs show ?thesis by simp
        qed
      qed
      with u sd pi1 show ?thesis by simp
    next
      case False
      then have sd: "shiftdown s ?h w = shiftdown_loop xp (length ?h - 1) s (2 * s + 1) ?h w"
        using s by (simp add: shiftdown_def Let_def)
      from shiftdown_loop_index [OF s1 refl _ pe1 il fresh1, of "2 * s + 1"]
      obtain h' w' where r: "shiftdown_loop xp (length ?h - 1) s (2 * s + 1) ?h w = Inr (h', w')"
        "length h' = length ?h" "length w' = length w" "mset h' = mset (?h[s := xp])"
        "position_index h' w'" by auto
      have "heap_property h \<Longrightarrow> heap_property h'"
      proof -
        assume H: "heap_property h"
        have "down_inv xp ?h s"
          unfolding down_inv_def
        proof (intro conjI allI impI)
          fix c assume c: "0 < c \<and> c < length ?h \<and> parent c \<noteq> s"
          from hp [OF H, of c] c have le: "h ! parent c \<le> h ! c" by simp
          show "?h ! parent c \<le> ?h ! c"
          proof (cases "c = s")
            case True
            with le gt c s show ?thesis by simp
          next
            case False
            with le c show ?thesis by simp
          qed
        next
          assume s0: "0 < s"
          have "parent s \<noteq> s" using parent_less [OF s0] by simp
          moreover from hp [OF H, of s] s0 s have "h ! parent s \<le> h ! s" by simp
          ultimately show "?h ! parent s \<le> xp" using gt by simp
        next
          fix c assume s0: "0 < s" and c: "0 < c \<and> c < length ?h \<and> parent c = s"
          have pss: "parent s \<noteq> s" using parent_less [OF s0] by simp
          have cs: "c \<noteq> s" using c parent_less [of c] by auto
          from hp [OF H, of s] s0 s have "h ! parent s \<le> h ! s" by simp
          also from hp [OF H, of c] c have "h ! s \<le> h ! c" by simp
          finally show "?h ! parent s \<le> ?h ! c" using pss cs by simp
        qed
        from shiftdown_loop_heap [OF s1 refl refl this r(1)] show "heap_property h'" .
      qed
      with u sd r show ?thesis by simp
    qed
  next
    case ngt: False
    with ne have lt: "xp \<le> h ! s" by simp
    have u: "update s xp h w = shiftup s ?h w"
      using s ne ngt by (simp add: update_def getitem_def)
    have upinv: "heap_property h \<Longrightarrow> up_inv xp ?h s"
      unfolding up_inv_def
    proof (intro conjI allI impI)
      fix c assume H: "heap_property h" and c: "0 < c \<and> c < length ?h \<and> c \<noteq> s"
      from hp [OF H, of c] c have le: "h ! parent c \<le> h ! c" by simp
      show "?h ! parent c \<le> ?h ! c"
      proof (cases "parent c = s")
        case True
        with le lt c s show ?thesis by simp
      next
        case False
        with le c show ?thesis by simp
      qed
    next
      fix c assume H: "heap_property h" and c: "0 < c \<and> c < length ?h \<and> parent c = s"
      have cs: "c \<noteq> s" using c parent_less [of c] by auto
      from hp [OF H, of c] c have "h ! s \<le> h ! c" by simp
      with lt have "xp \<le> h ! c" by (rule order_trans)
      with cs show "xp \<le> ?h ! c" by simp
    next
      fix c assume H: "heap_property h" and s0: "0 < s" and c: "0 < c \<and> c < length ?h \<and> parent c = s"
      have pss: "parent s \<noteq> s" using parent_less [OF s0] by simp
      have cs: "c \<noteq> s" using c parent_less [of c] by auto
      from hp [OF H, of s] s0 s have "h ! parent s \<le> h ! s" by simp
      also from hp [OF H, of c] c have "h ! s \<le> h ! c" by simp
      finally show "?h ! parent s \<le> ?h ! c" using pss cs by simp
    qed
    show ?thesis
    proof (cases "s = 0")
      case True
      then have su: "shiftup s ?h w = Inr (?h, w)" by (simp add: shiftup_def)
      have "heap_property h \<Longrightarrow> heap_property ?h"
      proof -
        assume H: "heap_property h"
        from up_final [OF s1 upinv [OF H]] True show ?thesis by simp
      qed
      with u su pi1 show ?thesis by simp
    next
      case False
      then have su: "shiftup s ?h w = shiftup_loop xp s ?h w"
        using s by (simp add: shiftup_def getitem_def)
      from shiftup_loop_index [OF s1 pe1 il fresh1]
      obtain h' w' where r: "shiftup_loop xp s ?h w = Inr (h', w')"
        "length h' = length ?h" "length w' = length w" "mset h' = mset (?h[s := xp])"
        "position_index h' w'" by auto
      have "heap_property h \<Longrightarrow> heap_property h'"
        using shiftup_loop_heap [OF s1 _ r(1)] upinv by blast
      with u su r show ?thesis by simp
    qed
  qed
qed

lemma mset_butlast_update:
  assumes "s < length h - 1"
  shows "mset ((butlast h)[s := last h]) = mset h - {#h ! s#}"
proof -
  have ne: "h \<noteq> []" using assms by auto
  then have h: "h = butlast h @ [last h]" by simp
  have sb: "s < length (butlast h)" using assms by simp
  have hs: "h ! s = butlast h ! s" using sb by (simp add: nth_butlast)
  have "mset h = add_mset (last h) (mset (butlast h))"
    by (subst h) simp
  moreover have "mset ((butlast h)[s := last h]) = add_mset (last h) (mset (butlast h) - {#butlast h ! s#})"
    using sb by (rule mset_update)
  moreover have "butlast h ! s \<in># mset (butlast h)" using sb by simp
  ultimately show ?thesis unfolding hs by simp
qed

lemma mset_butlast: "xs \<noteq> [] \<Longrightarrow> mset (butlast xs) = mset xs - {#last xs#}"
  by (induction xs) auto

lemma heap_property_butlast: "heap_property h \<Longrightarrow> heap_property (butlast h)"
  unfolding heap_property_def by (auto simp: nth_butlast)

lemma remove_spec:
  assumes s: "s < length h" and pi: "position_index h w"
  shows "\<exists>h' w'. remove s h w = Inr (h', w') \<and> length h' = length h - 1 \<and> length w' = length w
           \<and> mset h' = mset h - {#h ! s#} \<and> position_index h' w'
           \<and> (heap_property h \<longrightarrow> heap_property h')"
proof -
  have ne: "h \<noteq> []" using s by auto
  show ?thesis
  proof (cases "s = length h - 1")
    case True
    then have r: "remove s h w = Inr (butlast h, w)" using ne by (simp add: remove_def)
    have "h ! s = last h" using True ne by (simp add: last_conv_nth)
    then have "mset (butlast h) = mset h - {#h ! s#}"
      using ne by (simp add: mset_butlast)
    moreover have "position_index (butlast h) w"
      using pi unfolding position_index_def by (auto simp: nth_butlast)
    ultimately show ?thesis using r heap_property_butlast by auto
  next
    case False
    with s have sl: "s < length h - 1" by simp
    define xxpp where "xxpp = last h"
    define pp where "pp = ident xxpp"
    let ?hb = "butlast h" and ?w = "w[pp := s]"
    have lastn: "xxpp = h ! (length h - 1)" using ne by (simp add: xxpp_def last_conv_nth)
    have ppl: "pp < length w" "w ! pp = length h - 1"
      using pi ne unfolding position_index_def pp_def lastn by auto
    have r: "remove s h w = update s xxpp ?hb ?w"
      using ne False ppl(1) by (simp add: remove_def Let_def xxpp_def pp_def)
    have sb: "s < length ?hb" using sl by simp
    have idne: "ident (h ! s) \<noteq> pp"
      using position_index_distinct [OF pi s, of "length h - 1"] sl ne
      by (simp add: pp_def lastn)
    have ne': "xxpp \<noteq> ?hb ! s"
    proof
      assume "xxpp = ?hb ! s"
      then have "ident xxpp = ident (h ! s)" using sb by (simp add: nth_butlast)
      with idne show False by (simp add: pp_def)
    qed
    have other: "\<And>t. t < length ?hb \<Longrightarrow> ident (?hb ! t) < length w \<and> w ! ident (?hb ! t) = t
          \<and> ident (?hb ! t) \<noteq> pp"
    proof -
      fix t assume t: "t < length ?hb"
      then have th: "t < length h" "?hb ! t = h ! t" by (auto simp: nth_butlast)
      with pi have a: "ident (h ! t) < length w" "w ! ident (h ! t) = t"
        unfolding position_index_def by auto
      with ppl(2) t have "ident (h ! t) \<noteq> pp" by auto
      with a th show "ident (?hb ! t) < length w \<and> w ! ident (?hb ! t) = t \<and> ident (?hb ! t) \<noteq> pp"
        by simp
    qed
    have pe: "pos_except s ?hb ?w"
      unfolding pos_except_def
    proof (intro allI impI)
      fix t assume t: "t < length ?hb" "t \<noteq> s"
      from other [OF t(1)] show "ident (?hb ! t) < length ?w \<and> ?w ! ident (?hb ! t) = t"
        by simp
    qed
    have fresh: "\<forall>t < length ?hb. t \<noteq> s \<longrightarrow> ident (?hb ! t) \<noteq> ident xxpp"
      using other by (simp add: pp_def)
    have il: "ident xxpp < length ?w" using ppl(1) by (simp add: pp_def)
    have ws: "?w ! ident xxpp = s" using ppl(1) by (simp add: pp_def)
    from update_spec [OF sb ne' pe il ws fresh]
    obtain h' w' where u: "update s xxpp ?hb ?w = Inr (h', w')" "length h' = length ?hb"
      "length w' = length ?w" "mset h' = mset (?hb[s := xxpp])" "position_index h' w'"
      "heap_property ?hb \<longrightarrow> heap_property h'" by blast
    have "mset h' = mset h - {#h ! s#}"
      using u(4) mset_butlast_update [OF sl] by (simp add: xxpp_def)
    with r u heap_property_butlast [of h] show ?thesis by auto
  qed
qed

lemma shiftdown_spec:
  assumes hp: "heap_property h" and pi: "position_index h w"
  shows "\<exists>h' w'. shiftdown s h w = Inr (h', w') \<and> heap_property h' \<and> position_index h' w'
          \<and> mset h' = mset h \<and> length w' = length w"
proof (cases "2 * s + 1 > length h - 1")
  case True
  then show ?thesis using hp pi by (simp add: shiftdown_def Let_def)
next
  case False
  then have s: "s < length h" by simp
  have sd: "shiftdown s h w = shiftdown_loop (h ! s) (length h - 1) s (2 * s + 1) h w"
    using False by (simp add: shiftdown_def Let_def)
  have pe: "pos_except s h w" using pi by (rule position_index_except)
  have il: "ident (h ! s) < length w" using pi s unfolding position_index_def by blast
  have fresh: "\<forall>t < length h. t \<noteq> s \<longrightarrow> ident (h ! t) \<noteq> ident (h ! s)"
    using position_index_distinct [OF pi _ s] by blast
  from shiftdown_loop_index [OF s refl _ pe il fresh, of "2 * s + 1"]
  obtain h' w' where r: "shiftdown_loop (h ! s) (length h - 1) s (2 * s + 1) h w = Inr (h', w')"
    "length w' = length w" "mset h' = mset (h[s := h ! s])" "position_index h' w'" by auto
  have "down_inv (h ! s) h s"
    unfolding down_inv_def
  proof (intro conjI allI impI)
    fix c assume "0 < c \<and> c < length h \<and> parent c \<noteq> s"
    then show "h ! parent c \<le> h ! c" using heap_property_parentD [OF hp, of c] by simp
  next
    assume "0 < s"
    then show "h ! parent s \<le> h ! s" using heap_property_parentD [OF hp, of s] s by simp
  next
    fix c assume s0: "0 < s" and c: "0 < c \<and> c < length h \<and> parent c = s"
    from heap_property_parentD [OF hp, of s] s0 s have "h ! parent s \<le> h ! s" by simp
    also from heap_property_parentD [OF hp, of c] c have "h ! s \<le> h ! c" by simp
    finally show "h ! parent s \<le> h ! c" .
  qed
  from shiftdown_loop_heap [OF s refl refl this r(1)] have "heap_property h'" .
  with sd r show ?thesis by simp
qed

lemma shiftup_spec:
  assumes hp: "heap_property h" and pi: "position_index h w" and s: "s < length h"
  shows "\<exists>h' w'. shiftup s h w = Inr (h', w') \<and> heap_property h' \<and> position_index h' w'
          \<and> mset h' = mset h \<and> length w' = length w"
proof (cases "s = 0")
  case True
  then show ?thesis using hp pi by (simp add: shiftup_def)
next
  case False
  have su: "shiftup s h w = shiftup_loop (h ! s) s h w"
    using False s by (simp add: shiftup_def getitem_def)
  have pe: "pos_except s h w" using pi by (rule position_index_except)
  have il: "ident (h ! s) < length w" using pi s unfolding position_index_def by blast
  have fresh: "\<forall>t < length h. t \<noteq> s \<longrightarrow> ident (h ! t) \<noteq> ident (h ! s)"
    using position_index_distinct [OF pi _ s] by blast
  from shiftup_loop_index [OF s pe il fresh]
  obtain h' w' where r: "shiftup_loop (h ! s) s h w = Inr (h', w')"
    "length w' = length w" "mset h' = mset (h[s := h ! s])" "position_index h' w'" by auto
  have "up_inv (h ! s) h s"
    unfolding up_inv_def
  proof (intro conjI allI impI)
    fix c assume "0 < c \<and> c < length h \<and> c \<noteq> s"
    then show "h ! parent c \<le> h ! c" using heap_property_parentD [OF hp, of c] by simp
  next
    fix c assume "0 < c \<and> c < length h \<and> parent c = s"
    then show "h ! s \<le> h ! c" using heap_property_parentD [OF hp, of c] by simp
  next
    fix c assume s0: "0 < s" and c: "0 < c \<and> c < length h \<and> parent c = s"
    from heap_property_parentD [OF hp, of s] s0 s have "h ! parent s \<le> h ! s" by simp
    also from heap_property_parentD [OF hp, of c] c have "h ! s \<le> h ! c" by simp
    finally show "h ! parent s \<le> h ! c" .
  qed
  from shiftup_loop_heap [OF s this r(1)] have "heap_property h'" .
  with su r show ?thesis by simp
qed

text \<open>
  Claim C10, as amended. Whenever the heap satisfies the min-heap property and
  \<^verbatim>\<open>where[p] = s\<close> for every slot \<open>s\<close> holding the entry with identifier \<open>p\<close>, then
  \<^verbatim>\<open>shiftdown(s)\<close>, and \<^verbatim>\<open>shiftup(s)\<close> and \<^verbatim>\<open>remove(s)\<close> for a slot \<open>s\<close> of the heap,
  return with both properties holding again, \<^verbatim>\<open>remove\<close> having deleted exactly the entry
  of slot \<open>s\<close>; and \<^verbatim>\<open>update(s, xp)\<close> does so, leaving the heap with \<open>xp\<close> in place of
  the entry of slot \<open>s\<close>, provided \<open>s\<close> is a slot of the heap, \<open>xp\<close> differs from the
  entry there, no other slot holds the identifier of \<open>xp\<close>, and \<^verbatim>\<open>where\<close> already maps
  that identifier to \<open>s\<close> (as it does at both call sites of the engine).
\<close>

theorem heap_operations_keep_invariants:
  assumes "heap_property h" and "position_index h w"
  shows "(\<exists>h' w'. shiftdown s h w = Inr (h', w') \<and> heap_property h' \<and> position_index h' w')
    \<and> (s < length h \<longrightarrow>
          (\<exists>h' w'. shiftup s h w = Inr (h', w') \<and> heap_property h' \<and> position_index h' w'))
    \<and> (s < length h \<longrightarrow>
          (\<exists>h' w'. remove s h w = Inr (h', w') \<and> heap_property h' \<and> position_index h' w'
                   \<and> mset h' = mset h - {#h ! s#}))
    \<and> (s < length h \<and> xp \<noteq> h ! s \<and> ident xp < length w \<and> w ! ident xp = s
         \<and> (\<forall>t < length h. t \<noteq> s \<longrightarrow> ident (h ! t) \<noteq> ident xp) \<longrightarrow>
          (\<exists>h' w'. update s xp h w = Inr (h', w') \<and> heap_property h' \<and> position_index h' w'
                   \<and> mset h' = mset (h[s := xp])))"
proof (intro conjI impI)
  show "\<exists>h' w'. shiftdown s h w = Inr (h', w') \<and> heap_property h' \<and> position_index h' w'"
    using shiftdown_spec [OF assms, of s] by blast
next
  assume "s < length h"
  from shiftup_spec [OF assms this]
  show "\<exists>h' w'. shiftup s h w = Inr (h', w') \<and> heap_property h' \<and> position_index h' w'" by blast
next
  assume "s < length h"
  from remove_spec [OF this assms(2)] assms(1)
  show "\<exists>h' w'. remove s h w = Inr (h', w') \<and> heap_property h' \<and> position_index h' w'
          \<and> mset h' = mset h - {#h ! s#}" by blast
next
  assume a: "s < length h \<and> xp \<noteq> h ! s \<and> ident xp < length w \<and> w ! ident xp = s
         \<and> (\<forall>t < length h. t \<noteq> s \<longrightarrow> ident (h ! t) \<noteq> ident xp)"
  have pe: "pos_except s h w" using assms(2) by (rule position_index_except)
  from a have a1: "s < length h" and a2: "xp \<noteq> h ! s" and a3: "ident xp < length w"
    and a4: "w ! ident xp = s" and a5: "\<forall>t < length h. t \<noteq> s \<longrightarrow> ident (h ! t) \<noteq> ident xp"
    by blast+
  from update_spec [OF a1 a2 pe a3 a4 a5] assms(1)
  show "\<exists>h' w'. update s xp h w = Inr (h', w') \<and> heap_property h' \<and> position_index h' w'
          \<and> mset h' = mset (h[s := xp])" by blast
qed

text \<open>
  Claim C10 as stated fails for \<^verbatim>\<open>update\<close>: on the one-entry heap \<open>[(1, 0, u)]\<close> with
  \<^verbatim>\<open>where = [0, 7]\<close>, \<^verbatim>\<open>update(0, (5, 1, u))\<close> stores the entry and \<^verbatim>\<open>shiftdown\<close> returns
  at once, before its \<^verbatim>\<open>where[p] = i\<close>; \<^verbatim>\<open>where[1]\<close> is still 7 while the entry with
  identifier 1 is in slot 0.
\<close>

theorem update_breaks_position_index:
  "heap_property [(1, 0, ())] \<and> position_index [(1, 0, ())] [0, 7]
   \<and> update 0 (5, 1, ()) [(1, 0, ())] [0, 7] = Inr ([(5, 1, ())], [0, 7])
   \<and> \<not> position_index [(5, 1, ())] [0, 7]"
  by (simp add: heap_property_def position_index_def ident_def update_def getitem_def
      shiftdown_def)

theorem heap_operations_keep_invariants_witness:
  "heap_property [(1, 0, ()), (2, 1, ()), (3, 2, ())]
   \<and> position_index [(1, 0, ()), (2, 1, ()), (3, 2, ())] [0, 1, 2]
   \<and> shiftdown 0 [(1, 0, ()), (2, 1, ()), (3, 2, ())] [0, 1, 2]
       = Inr ([(1, 0, ()), (2, 1, ()), (3, 2, ())], [0, 1, 2])
   \<and> shiftup 0 [(1, 0, ()), (2, 1, ()), (3, 2, ())] [0, 1, 2]
       = Inr ([(1, 0, ()), (2, 1, ()), (3, 2, ())], [0, 1, 2])
   \<and> remove 0 [(1, 0, ()), (2, 1, ()), (3, 2, ())] [0, 1, 2]
       = Inr ([(2, 1, ()), (3, 2, ())], [0, 0, 1])
   \<and> heap_property [(2, 1, ()), (3, 2, ())]
   \<and> position_index [(2, 1, ()), (3, 2, ())] [0, 0, 1]
   \<and> update 0 (5, 0, ()) [(1, 0, ()), (2, 1, ()), (3, 2, ())] [0, 1, 2]
       = Inr ([(2, 1, ()), (5, 0, ()), (3, 2, ())], [1, 0, 2])
   \<and> heap_property [(2, 1, ()), (5, 0, ()), (3, 2, ())]
   \<and> position_index [(2, 1, ()), (5, 0, ()), (3, 2, ())] [1, 0, 2]"
proof -
  define H :: "unit entry list" where "H = [(1, 0, ()), (2, 1, ()), (3, 2, ())]"
  define W :: "nat list" where "W = [0, 1, 2]"
  note lt3 = All_less_Suc
  have hp: "heap_property H"
    unfolding H_def by (simp add: heap_property_def lt3)
  have pi: "position_index H W"
    unfolding H_def W_def by (simp add: position_index_def lt3 ident_def)
  note ev = update_def remove_def shiftdown_def shiftup_def getitem_def ident_def place_def
    shiftdown_loop.simps shiftup_loop.simps Let_def
  have sd: "shiftdown 0 H W = Inr (H, W)"
    unfolding H_def W_def by (simp add: ev)
  have su: "shiftup 0 H W = Inr (H, W)"
    unfolding H_def W_def by (simp add: ev)
  have rm: "remove 0 H W = Inr ([(2, 1, ()), (3, 2, ())], [0, 0, 1])"
    unfolding H_def W_def by (simp add: ev)
  have up: "update 0 (5, 0, ()) H W = Inr ([(2, 1, ()), (5, 0, ()), (3, 2, ())], [1, 0, 2])"
    unfolding H_def W_def by (simp add: ev)
  have pre: "0 < length H \<and> (5, 0, ()) \<noteq> H ! 0 \<and> ident (5, 0, ()) < length W \<and> W ! ident (5, 0, ()) = 0
         \<and> (\<forall>t < length H. t \<noteq> 0 \<longrightarrow> ident (H ! t) \<noteq> ident (5, 0, ()))"
    unfolding H_def W_def by (simp add: ident_def lt3)
  note t = heap_operations_keep_invariants [OF hp pi, of 0 "(5, 0, ())"]
  from t pre have "\<exists>h' w'. update 0 (5, 0, ()) H W = Inr (h', w') \<and> heap_property h' \<and> position_index h' w'"
    by blast
  with up have u: "heap_property [(2, 1, ()), (5, 0, ()), (3, 2, ())]"
    "position_index [(2, 1, ()), (5, 0, ()), (3, 2, ())] [1, 0, 2]" by auto
  from t pre have "\<exists>h' w'. remove 0 H W = Inr (h', w') \<and> heap_property h' \<and> position_index h' w'"
    by blast
  with rm have r: "heap_property [(2, 1, ()), (3, 2, ())]"
    "position_index [(2, 1, ()), (3, 2, ())] [0, 0, 1]" by auto
  from hp pi sd su rm up u r show ?thesis unfolding H_def W_def by simp
qed

section \<open>The agglomerative engine with a fixed number of clusters\<close>

lemma tri_Suc: "tri (Suc a) = tri a + a"
proof -
  have e: "a * Suc a = (a - 1) * a + 2 * a" by (cases a) (auto simp: algebra_simps)
  have "tri (Suc a) = (a * Suc a) div 2" by (simp add: tri_def)
  also have "\<dots> = ((a - 1) * a + 2 * a) div 2" by (simp only: e)
  also have "\<dots> = (a - 1) * a div 2 + a" by simp
  finally show ?thesis by (simp add: tri_def)
qed

lemma tri_mono: "a \<le> b \<Longrightarrow> tri a \<le> tri b"
  by (induction b) (auto simp: tri_Suc le_Suc_eq)

lemma index_tri: "index a b = b + tri a"
  by (simp add: index_def tri_def)

lemma tri_n: "n * (n - 1) div 2 = tri n"
  by (simp add: tri_def mult.commute)

lemma index_less: "b < a \<Longrightarrow> a < n \<Longrightarrow> index a b < tri n"
proof -
  assume "b < a" "a < n"
  then have "index a b < tri a + a" by (simp add: index_tri)
  also have "\<dots> = tri (Suc a)" by (simp add: tri_Suc)
  also have "\<dots> \<le> tri n" using \<open>a < n\<close> by (intro tri_mono) simp
  finally show ?thesis .
qed

lemma index_inj:
  assumes "b < a" "b' < a'" "index a b = index a' b'"
  shows "a = a' \<and> b = b'"
proof -
  have aux: "\<And>a b a' b'. b < a \<Longrightarrow> b' < a' \<Longrightarrow> a < a' \<Longrightarrow> index a b < index a' b'"
  proof -
    fix a b a' b' :: nat assume "b < a" "b' < a'" "a < a'"
    then have "index a b < tri (Suc a)" by (simp add: index_tri tri_Suc)
    also have "\<dots> \<le> tri a'" using \<open>a < a'\<close> by (intro tri_mono) simp
    also have "\<dots> \<le> index a' b'" by (simp add: index_tri)
    finally show "index a b < index a' b'" .
  qed
  have "a = a'"
  proof (rule ccontr)
    assume "a \<noteq> a'"
    then consider "a < a'" | "a' < a" by linarith
    then show False
    proof cases
      case 1 from aux [OF assms(1,2) 1] assms(3) show False by simp
    next
      case 2 from aux [OF assms(2,1) 2] assms(3) show False by simp
    qed
  qed
  with assms(3) show ?thesis by (simp add: index_tri)
qed

lemma lookup_of_Suc: "lookup_of (Suc n) = lookup_of n @ map (\<lambda>j. (n, j)) [0..<n]"
  by (simp add: lookup_of_def)

lemma length_lookup_of: "length (lookup_of n) = tri n"
  by (induction n) (simp_all add: lookup_of_Suc tri_Suc, simp add: lookup_of_def tri_def)

lemma lookup_of_nth:
  "p < tri n \<Longrightarrow> \<exists>a b. lookup_of n ! p = (a, b) \<and> b < a \<and> a < n \<and> index a b = p"
proof (induction n)
  case 0
  then show ?case by (simp add: tri_def)
next
  case (Suc n)
  show ?case
  proof (cases "p < tri n")
    case True
    from Suc.IH [OF True] obtain a b where "lookup_of n ! p = (a, b)" "b < a" "a < n" "index a b = p"
      by blast
    then show ?thesis using True by (auto simp: lookup_of_Suc nth_append length_lookup_of)
  next
    case False
    then have "p - tri n < n" using Suc.prems by (simp add: tri_Suc)
    then show ?thesis using False
      by (auto simp: lookup_of_Suc nth_append length_lookup_of index_tri)
  qed
qed

lemma lookup_of_index:
  assumes "b < a" "a < n"
  shows "index a b < length (lookup_of n) \<and> lookup_of n ! index a b = (a, b)"
proof -
  have l: "index a b < tri n" using assms by (rule index_less)
  from lookup_of_nth [OF l] obtain a' b' where
    r: "lookup_of n ! index a b = (a', b')" "b' < a'" "a' < n" "index a' b' = index a b" by blast
  from index_inj [OF assms(1) r(2)] r(4) have "a = a' \<and> b = b'" by simp
  with r(1) l show ?thesis by (simp add: length_lookup_of)
qed

lemma position_index_distinct_idents:
  assumes "position_index h w"
  shows "distinct (map ident h)"
proof -
  have "\<And>s t. s < length h \<Longrightarrow> t < length h \<Longrightarrow> s \<noteq> t \<Longrightarrow> ident (h ! s) \<noteq> ident (h ! t)"
    using position_index_distinct [OF assms] by blast
  then show ?thesis by (auto simp: distinct_conv_nth)
qed

lemma position_index_slot:
  assumes "position_index h w" "p \<in> ids h"
  shows "p < length w \<and> w ! p < length h \<and> ident (h ! (w ! p)) = p"
proof -
  from assms(2) obtain s where s: "s < length h" "ident (h ! s) = p"
    unfolding ids_def by (auto simp: in_set_conv_nth)
  with assms(1) have "p < length w" "w ! p = s" unfolding position_index_def by auto
  with s show ?thesis by simp
qed

lemma ids_nth: "s < length h \<Longrightarrow> ident (h ! s) \<in> ids h"
  by (simp add: ids_def)

lemma ids_mset: "mset h' = mset h \<Longrightarrow> ids h' = ids h"
  unfolding ids_def by (metis set_mset_mset)

lemma ids_remove:
  assumes pi: "position_index h w" and s: "s < length h" and m: "mset h1 = mset h - {#h ! s#}"
  shows "ids h1 = ids h - {ident (h ! s)}"
proof -
  have di: "distinct (map ident h)" using pi by (rule position_index_distinct_idents)
  then have d: "distinct h" and inj: "inj_on ident (set h)" by (auto simp: distinct_map)
  have "mset h1 = mset (remove1 (h ! s) h)" using m by simp
  then have "set h1 = set (remove1 (h ! s) h)" by (metis set_mset_mset)
  also have "\<dots> = set h - {h ! s}" using d by (rule set_remove1_eq)
  finally have "ids h1 = ident ` (set h - {h ! s})" by (simp add: ids_def)
  also have "\<dots> = ident ` set h - ident ` {h ! s}"
    using inj s by (intro inj_on_image_set_diff [of ident "set h"]) auto
  finally show ?thesis by (simp add: ids_def)
qed

lemma ids_update:
  assumes "s < length h" "ident xp = ident (h ! s)" "mset h' = mset (h[s := xp])"
  shows "ids h' = ids h"
proof -
  have "map ident (h[s := xp]) = map ident h"
    using assms(1,2) by (simp add: map_update list_update_same_conv)
  then have "set (map ident (h[s := xp])) = set (map ident h)" by simp
  moreover have "ids h' = ids (h[s := xp])" using assms(3) by (rule ids_mset)
  ultimately show ?thesis by (simp add: ids_def)
qed

lemma shiftdown_index:
  assumes pi: "position_index h w"
  shows "\<exists>h' w'. shiftdown s h w = Inr (h', w') \<and> position_index h' w'
          \<and> mset h' = mset h \<and> length w' = length w"
proof (cases "2 * s + 1 > length h - 1")
  case True
  then show ?thesis using pi by (simp add: shiftdown_def Let_def)
next
  case False
  then have s: "s < length h" by simp
  have sd: "shiftdown s h w = shiftdown_loop (h ! s) (length h - 1) s (2 * s + 1) h w"
    using False by (simp add: shiftdown_def Let_def)
  have pe: "pos_except s h w" using pi by (rule position_index_except)
  have il: "ident (h ! s) < length w" using pi s unfolding position_index_def by blast
  have fresh: "\<forall>t < length h. t \<noteq> s \<longrightarrow> ident (h ! t) \<noteq> ident (h ! s)"
    using position_index_distinct [OF pi _ s] by blast
  from shiftdown_loop_index [OF s refl _ pe il fresh, of "2 * s + 1"]
  obtain h' w' where r: "shiftdown_loop (h ! s) (length h - 1) s (2 * s + 1) h w = Inr (h', w')"
    "length w' = length w" "mset h' = mset (h[s := h ! s])" "position_index h' w'" by auto
  with sd show ?thesis by simp
qed

lemma heapify_index:
  assumes "position_index h w"
  shows "\<exists>h' w'. heapify ss h w = Inr (h', w') \<and> position_index h' w'
          \<and> mset h' = mset h \<and> length w' = length w"
  using assms
proof (induction ss arbitrary: h w)
  case Nil
  then show ?case by simp
next
  case (Cons s ss)
  from shiftdown_index [OF Cons.prems, of s] obtain h1 w1 where
    a: "shiftdown s h w = Inr (h1, w1)" "position_index h1 w1" "mset h1 = mset h" "length w1 = length w"
    by blast
  from Cons.IH [OF a(2)] obtain h' w' where
    b: "heapify ss h1 w1 = Inr (h', w')" "position_index h' w'" "mset h' = mset h1" "length w' = length w1"
    by blast
  from a b show ?case by simp
qed

lemma relink_ids:
  assumes "position_index h w"
    and "distinct (map snd ab)" "set (map fst ab) \<inter> set (map snd ab) = {}"
    and "set (map fst ab) \<subseteq> ids h" "set (map snd ab) \<subseteq> ids h"
  shows "\<exists>h' w'. relink ab h w = Inr (h', w') \<and> position_index h' w' \<and> length w' = length w
          \<and> ids h' = ids h - set (map snd ab)"
  using assms
proof (induction ab arbitrary: h w)
  case Nil
  then show ?case by simp
next
  case (Cons x ab)
  obtain a b where x: "x = (a, b)" by (cases x)
  have bin: "b \<in> ids h" and ain: "a \<in> ids h" and ab: "a \<noteq> b"
    using Cons.prems x by auto
  from position_index_slot [OF Cons.prems(1) bin]
  have sb: "b < length w" "w ! b < length h" "ident (h ! (w ! b)) = b" by auto
  define sb where "sb = w ! b"
  obtain y py u where hb: "h ! sb = (y, py, u)" by (cases "h ! sb") auto
  from remove_spec [OF sb(2) Cons.prems(1)] obtain h1 w1 where
    r: "remove (w ! b) h w = Inr (h1, w1)" "length w1 = length w"
       "mset h1 = mset h - {#h ! (w ! b)#}" "position_index h1 w1" by blast
  have ids1: "ids h1 = ids h - {b}" using ids_remove [OF Cons.prems(1) sb(2) r(3)] sb(3) by simp
  have ain1: "a \<in> ids h1" using ids1 ain ab by simp
  from position_index_slot [OF r(4) ain1]
  have sa: "a < length w1" "w1 ! a < length h1" "ident (h1 ! (w1 ! a)) = a" by auto
  define sa where "sa = w1 ! a"
  obtain x' px u' where ha: "h1 ! sa = (x', px, u')" by (cases "h1 ! sa") auto
  have px: "px = a" using sa(3) ha by (simp add: sa_def ident_def)
  have step: "relink (x # ab) h w =
      (if y < x' then ebind (update sa (y, px, u) h1 w1) (\<lambda>(heap, whr). relink ab heap whr)
       else relink ab h1 w1)"
    using sb sa r(1) hb ha by (simp add: x getitem_def sb_def sa_def)
  have rest: "distinct (map snd ab)" "set (map fst ab) \<inter> set (map snd ab) = {}"
    using Cons.prems(2,3) by auto
  have sub: "set (map fst ab) \<subseteq> ids h - {b}" "set (map snd ab) \<subseteq> ids h - {b}"
    using Cons.prems x by auto
  show ?case
  proof (cases "y < x'")
    case False
    from Cons.IH [OF r(4) rest] sub ids1 obtain h' w' where
      "relink ab h1 w1 = Inr (h', w')" "position_index h' w'" "length w' = length w1"
      "ids h' = ids h1 - set (map snd ab)" by auto
    then show ?thesis using step False ids1 r(2) x by auto
  next
    case True
    have ne: "(y, px, u) \<noteq> h1 ! sa" using True ha by auto
    have pe: "pos_except sa h1 w1" using r(4) by (rule position_index_except)
    have il: "ident (y, px, u) < length w1" using sa(1) px by (simp add: ident_def)
    have ws: "w1 ! ident (y, px, u) = sa" using px by (simp add: ident_def sa_def)
    have fresh: "\<forall>t < length h1. t \<noteq> sa \<longrightarrow> ident (h1 ! t) \<noteq> ident (y, px, u)"
    proof (intro allI impI)
      fix t assume t: "t < length h1" "t \<noteq> sa"
      from position_index_distinct [OF r(4) t(1) _ t(2)] sa(2,3)
      show "ident (h1 ! t) \<noteq> ident (y, px, u)" by (simp add: sa_def px ident_def)
    qed
    from update_spec [OF _ ne pe il ws fresh] sa(2) obtain h2 w2 where
      u: "update sa (y, px, u) h1 w1 = Inr (h2, w2)" "length w2 = length w1"
         "mset h2 = mset (h1[sa := (y, px, u)])" "position_index h2 w2"
      by (auto simp: sa_def)
    have ids2: "ids h2 = ids h1"
      by (rule ids_update [OF _ _ u(3)]) (use sa in \<open>simp_all add: sa_def px ident_def\<close>)
    from Cons.IH [OF u(4) rest] sub ids1 ids2 obtain h' w' where
      "relink ab h2 w2 = Inr (h', w')" "position_index h' w'" "length w' = length w2"
      "ids h' = ids h2 - set (map snd ab)" by auto
    then show ?thesis using step True u(1,2) ids1 ids2 r(2) x by auto
  qed
qed

lemma pid_commute: "pid x y = pid y x"
  by (simp add: pid_def max.commute min.commute)

lemma pid_inj:
  assumes "x \<noteq> y" "x' \<noteq> y'" "pid x y = pid x' y'"
  shows "(x = x' \<and> y = y') \<or> (x = y' \<and> y = x')"
proof -
  have "min x y < max x y" "min x' y' < max x' y'" using assms(1,2) by auto
  from index_inj [OF this] assms(3) have "max x y = max x' y'" "min x y = min x' y'"
    by (auto simp: pid_def)
  then show ?thesis by (auto simp: max_def min_def split: if_splits)
qed

lemma pid_in_pairs: "x \<noteq> y \<Longrightarrow> x \<in> L \<Longrightarrow> y \<in> L \<Longrightarrow> pid x y \<in> pairs_of L"
  unfolding pairs_of_def pid_def
  by (rule CollectI, rule exI [of _ "max x y"], rule exI [of _ "min x y"])
    (auto simp: max_def min_def)

lemma pairs_ofE:
  assumes "p \<in> pairs_of L"
  obtains a b where "p = index a b" "b < a" "a \<in> L" "b \<in> L" "p = pid a b"
proof -
  from assms obtain a b where ab: "p = index a b" "b < a" "a \<in> L" "b \<in> L"
    unfolding pairs_of_def by blast
  then have "p = pid a b" by (simp add: pid_def max_def min_def)
  with ab that show ?thesis by blast
qed

lemma pairs_of_remove:
  assumes "i \<in> L" "j \<in> L" "i \<noteq> j"
  shows "pairs_of L - {pid i j} - pid j ` (L - {i, j}) = pairs_of (L - {j})"
proof (rule set_eqI, rule iffI)
  fix p assume p: "p \<in> pairs_of L - {pid i j} - pid j ` (L - {i, j})"
  then have "p \<in> pairs_of L" by simp
  then obtain a b where ab: "p = index a b" "b < a" "a \<in> L" "b \<in> L" "p = pid a b"
    by (rule pairs_ofE)
  have "a \<noteq> j"
  proof
    assume aj: "a = j"
    show False
    proof (cases "b = i")
      case True
      with aj ab(5) p show False by (simp add: pid_commute)
    next
      case False
      with aj ab have "b \<in> L - {i, j}" by auto
      with aj ab(5) p show False by auto
    qed
  qed
  moreover have "b \<noteq> j"
  proof
    assume bj: "b = j"
    show False
    proof (cases "a = i")
      case True
      with bj ab(5) p show False by simp
    next
      case False
      with bj ab have "a \<in> L - {i, j}" by auto
      moreover have "p = pid j a" using ab(5) bj by (simp add: pid_commute)
      ultimately show False using p by auto
    qed
  qed
  ultimately show "p \<in> pairs_of (L - {j})" using ab unfolding pairs_of_def by blast
next
  fix p assume "p \<in> pairs_of (L - {j})"
  then obtain a b where ab: "p = index a b" "b < a" "a \<in> L - {j}" "b \<in> L - {j}" "p = pid a b"
    by (rule pairs_ofE)
  have ne: "a \<noteq> b" using ab(2) by simp
  have "p \<in> pairs_of L" using ab unfolding pairs_of_def by blast
  moreover have "p \<noteq> pid i j"
  proof
    assume "p = pid i j"
    with ab(5) have "pid a b = pid i j" by simp
    from pid_inj [OF ne assms(3) this] ab(3,4) show False by auto
  qed
  moreover have "p \<notin> pid j ` (L - {i, j})"
  proof
    assume "p \<in> pid j ` (L - {i, j})"
    then obtain r where r: "r \<in> L - {i, j}" "p = pid j r" by blast
    then have "j \<noteq> r" by auto
    from pid_inj [OF ne this] ab(5) r(2) ab(3,4) show False by auto
  qed
  ultimately show "p \<in> pairs_of L - {pid i j} - pid j ` (L - {i, j})" by simp
qed

lemma unmerged_pairs_eq:
  assumes "i < n"
  shows "unmerged_pairs cl i j n
     = map (pid i) (filter (\<lambda>r. r \<noteq> i \<and> r \<noteq> j \<and> is_unmerged cl r) [0..<n])"
proof -
  have split: "[0..<n] = [0..<i] @ [i] @ [i + 1..<n]"
    using assms by (metis Suc_eq_plus1 append_Cons append_Nil le_add2 less_imp_le_nat upt_add_eq_append
        upt_conv_Cons zero_le less_eq_nat.simps(1) add.commute add_0 le_add_diff_inverse)
  have a: "map (\<lambda>r. index i r) (filter (\<lambda>r. r \<noteq> j \<and> is_unmerged cl r) [0..<i])
      = map (pid i) (filter (\<lambda>r. r \<noteq> i \<and> r \<noteq> j \<and> is_unmerged cl r) [0..<i])"
  proof -
    have "filter (\<lambda>r. r \<noteq> j \<and> is_unmerged cl r) [0..<i]
        = filter (\<lambda>r. r \<noteq> i \<and> r \<noteq> j \<and> is_unmerged cl r) [0..<i]"
      by (rule filter_cong) auto
    moreover have "map (\<lambda>r. index i r) (filter (\<lambda>r. r \<noteq> i \<and> r \<noteq> j \<and> is_unmerged cl r) [0..<i])
        = map (pid i) (filter (\<lambda>r. r \<noteq> i \<and> r \<noteq> j \<and> is_unmerged cl r) [0..<i])"
      by (rule map_cong) (auto simp: pid_def max_def min_def)
    ultimately show ?thesis by simp
  qed
  have b: "map (\<lambda>r. index r i) (filter (\<lambda>r. r \<noteq> j \<and> is_unmerged cl r) [i + 1..<n])
      = map (pid i) (filter (\<lambda>r. r \<noteq> i \<and> r \<noteq> j \<and> is_unmerged cl r) [i + 1..<n])"
  proof -
    have "filter (\<lambda>r. r \<noteq> j \<and> is_unmerged cl r) [i + 1..<n]
        = filter (\<lambda>r. r \<noteq> i \<and> r \<noteq> j \<and> is_unmerged cl r) [i + 1..<n]"
      by (rule filter_cong) auto
    moreover have "map (\<lambda>r. index r i) (filter (\<lambda>r. r \<noteq> i \<and> r \<noteq> j \<and> is_unmerged cl r) [i + 1..<n])
        = map (pid i) (filter (\<lambda>r. r \<noteq> i \<and> r \<noteq> j \<and> is_unmerged cl r) [i + 1..<n])"
      by (rule map_cong) (auto simp: pid_def max_def min_def)
    ultimately show ?thesis by simp
  qed
  have "map (pid i) (filter (\<lambda>r. r \<noteq> i \<and> r \<noteq> j \<and> is_unmerged cl r) [0..<n])
      = map (pid i) (filter (\<lambda>r. r \<noteq> i \<and> r \<noteq> j \<and> is_unmerged cl r) ([0..<i] @ [i] @ [i + 1..<n]))"
    using split by simp
  then show ?thesis
    unfolding unmerged_pairs_def a b by simp
qed

lemma mass_live: "mset (concat (live_clusters cl)) = mass cl"
  by (induction cl) (auto simp: live_clusters_def mass_def content_def split: option.splits)

lemma mass_update:
  assumes "i < length cl"
  shows "mass (cl[i := v]) + content (cl ! i) = mass cl + content v"
  using assms
proof (induction cl arbitrary: i)
  case Nil
  then show ?case by simp
next
  case (Cons c cl)
  show ?case
  proof (cases i)
    case 0
    then show ?thesis by (simp add: mass_def)
  next
    case (Suc k)
    with Cons.prems have "k < length cl" by simp
    from Cons.IH [OF this] show ?thesis using Suc by (simp add: mass_def ac_simps)
  qed
qed

lemma live_Some:
  assumes "r \<in> live cl" "\<forall>r < length cl. cl ! r \<noteq> Some []"
  obtains xs where "cl ! r = Some xs" "xs \<noteq> []" "r < length cl"
  using assms unfolding live_def is_unmerged_def by (auto split: option.splits)

lemma live_finite: "finite (live cl)"
  unfolding live_def by simp

lemma live_merge:
  assumes "i < length cl" "j < length cl" "i \<noteq> j" "xs \<noteq> []" "i \<in> live cl"
  shows "live (cl[i := Some (xs @ ys), j := None]) = live cl - {j}"
  using assms unfolding live_def is_unmerged_def
  by (auto simp: nth_list_update split: option.splits if_splits)

lemma merge_pair_inv:
  fixes st :: "'u::linorder agg"
  assumes inv: "agg_inv n st" and dom: "a_dominant st = None"
    and ne: "a_heap st \<noteq> []" and hd: "hd (a_heap st) = (d, p, u)"
    and lk: "getitem (lookup_of n) p = Inr (i0, j0)"
    and i: "i = (if i0 > j0 then j0 else i0)" and j: "j = (if i0 > j0 then i0 else j0)"
  shows "\<exists>st'. merge_pair n st p i j = Inr st' \<and> a_dominant st' = None
           \<and> a_criterion st' = a_criterion st
           \<and> agg_inv n (st'\<lparr>a_n_clusters := a_n_clusters st - 1\<rparr>)"
proof -
  let ?h = "a_heap st" and ?w = "a_whr st" and ?cl = "a_clusters st"
  let ?L = "live ?cl"
  from inv have len: "length ?cl = n" and wlen: "length ?w = tri n"
    and pi: "position_index ?h ?w" and idsL: "ids ?h = pairs_of ?L"
    and nc: "a_n_clusters st = int (card ?L)" and nonempty: "\<forall>r < n. ?cl ! r \<noteq> Some []"
    and ms: "mass ?cl = mset [0..<n]"
    unfolding agg_inv_def by blast+
  have h0: "?h ! 0 = (d, p, u)" "0 < length ?h" using ne hd by (auto simp: hd_conv_nth)
  then have pid0: "ident (?h ! 0) = p" by (simp add: ident_def)
  have pin: "p \<in> ids ?h" using ids_nth [OF h0(2)] pid0 by simp
  then have "p \<in> pairs_of ?L" using idsL by simp
  then obtain a b where ab: "p = index a b" "b < a" "a \<in> ?L" "b \<in> ?L" "p = pid a b"
    by (rule pairs_ofE)
  have an: "a < n" using ab(3) len by (simp add: live_def)
  from lookup_of_index [OF ab(2) an] lk ab(1) have "i0 = a" "j0 = b"
    by (auto simp: getitem_def split: if_splits)
  with i j ab(2) have ij: "i = b" "j = a" by auto
  then have ilj: "i < j" "i \<noteq> j" "i \<in> ?L" "j \<in> ?L" "i < n" "j < n" "p = pid i j"
    using ab an by (auto simp: pid_commute)
  from position_index_slot [OF pi pin] pi h0(2) pid0
  have wp: "p < length ?w" "?w ! p = 0" unfolding position_index_def by auto
  from remove_spec [OF h0(2) pi] obtain h1 w1 where
    r: "remove 0 ?h ?w = Inr (h1, w1)" "length w1 = length ?w"
       "mset h1 = mset ?h - {#?h ! 0#}" "position_index h1 w1" by blast
  have ids1: "ids h1 = pairs_of ?L - {pid i j}"
    using ids_remove [OF pi h0(2) r(3)] pid0 idsL ilj(7) by simp
  define R where "R = filter (\<lambda>r. r \<noteq> i \<and> r \<noteq> j \<and> is_unmerged ?cl r) [0..<n]"
  have setR: "set R = ?L - {i, j}" unfolding R_def live_def using len by auto
  have dR: "distinct R" unfolding R_def by simp
  have up_i: "unmerged_pairs ?cl i j n = map (pid i) R"
    using unmerged_pairs_eq [OF ilj(5), of ?cl j] by (simp add: R_def)
  have "unmerged_pairs ?cl j i n = map (pid j) (filter (\<lambda>r. r \<noteq> j \<and> r \<noteq> i \<and> is_unmerged ?cl r) [0..<n])"
    using unmerged_pairs_eq [OF ilj(6), of ?cl i] by simp
  also have "filter (\<lambda>r. r \<noteq> j \<and> r \<noteq> i \<and> is_unmerged ?cl r) [0..<n] = R"
    unfolding R_def by (rule filter_cong) auto
  finally have up_j: "unmerged_pairs ?cl j i n = map (pid j) R" .
  define ab where "ab = map (\<lambda>r. (pid i r, pid j r)) R"
  have z: "zip (unmerged_pairs ?cl i j n) (unmerged_pairs ?cl j i n) = ab"
    unfolding up_i up_j ab_def by (simp add: zip_map_map zip_same_conv_map)
  have fst_ab: "map fst ab = map (pid i) R" and snd_ab: "map snd ab = map (pid j) R"
    by (simp_all add: ab_def comp_def)
  have d_snd: "distinct (map snd ab)"
    unfolding snd_ab distinct_map
  proof (intro conjI inj_onI)
    show "distinct R" by (rule dR)
    fix x y assume x: "x \<in> set R" and y: "y \<in> set R" and e: "pid j x = pid j y"
    from x y setR have "j \<noteq> x" "j \<noteq> y" by auto
    from pid_inj [OF this e] \<open>j \<noteq> x\<close> show "x = y" by auto
  qed
  have disj: "set (map fst ab) \<inter> set (map snd ab) = {}"
  proof (rule ccontr)
    assume "set (map fst ab) \<inter> set (map snd ab) \<noteq> {}"
    then obtain x y where x: "x \<in> set R" and y: "y \<in> set R" and e: "pid i x = pid j y"
      unfolding fst_ab snd_ab by auto
    from x y setR have "i \<noteq> x" "j \<noteq> y" "y \<noteq> i" by auto
    from pid_inj [OF this(1,2) e] ilj(2) \<open>y \<noteq> i\<close> show False by auto
  qed
  have sub1: "set (map fst ab) \<subseteq> ids h1"
  proof
    fix q assume "q \<in> set (map fst ab)"
    then obtain x where x: "x \<in> set R" "q = pid i x" unfolding fst_ab by auto
    then have xl: "x \<in> ?L" "x \<noteq> i" "x \<noteq> j" using setR by auto
    have "q \<in> pairs_of ?L" using pid_in_pairs [of i x ?L] xl ilj(3) x(2) by auto
    moreover have "q \<noteq> pid i j"
    proof
      assume "q = pid i j"
      with x(2) have "pid i x = pid i j" by simp
      from pid_inj [OF _ ilj(2) this] xl show False by auto
    qed
    ultimately show "q \<in> ids h1" using ids1 by simp
  qed
  have sub2: "set (map snd ab) \<subseteq> ids h1"
  proof
    fix q assume "q \<in> set (map snd ab)"
    then obtain x where x: "x \<in> set R" "q = pid j x" unfolding snd_ab by auto
    then have xl: "x \<in> ?L" "x \<noteq> i" "x \<noteq> j" using setR by auto
    have "q \<in> pairs_of ?L" using pid_in_pairs [of j x ?L] xl ilj(4) x(2) by auto
    moreover have "q \<noteq> pid i j"
    proof
      assume "q = pid i j"
      with x(2) have "pid j x = pid i j" by simp
      from pid_inj [OF _ ilj(2) this] xl show False by auto
    qed
    ultimately show "q \<in> ids h1" using ids1 by simp
  qed
  from relink_ids [OF r(4) d_snd disj sub1 sub2] obtain h2 w2 where
    rl: "relink ab h1 w1 = Inr (h2, w2)" "position_index h2 w2" "length w2 = length w1"
        "ids h2 = ids h1 - set (map snd ab)" by blast
  have "set (map snd ab) = pid j ` (?L - {i, j})" unfolding snd_ab using setR by simp
  with rl(4) ids1 have ids2: "ids h2 = pairs_of (?L - {j})"
    using pairs_of_remove [OF ilj(3,4,2)] by simp
  from live_Some [OF ilj(3)] nonempty len obtain xs where xs: "?cl ! i = Some xs" "xs \<noteq> []"
    by metis
  from live_Some [OF ilj(4)] nonempty len obtain ys where ys: "?cl ! j = Some ys" "ys \<noteq> []"
    by metis
  let ?cl' = "?cl[i := Some (xs @ ys), j := None]"
  define st' where "st' = st\<lparr>a_heap := h2, a_whr := w2, a_clusters := ?cl', a_dominant := None\<rparr>"
  have mp: "merge_pair n st p i j = Inr st'"
    using wp r(1) z rl(1) dom xs ys ilj(5,6) len
    by (simp add: merge_pair_def Let_def getitem_def update_dominant_def st'_def)
  have live': "live ?cl' = ?L - {j}"
    using live_merge [of i ?cl j xs ys] ilj len xs(2) by simp
  have "0 < card ?L" using ilj(4) live_finite [of ?cl] by (auto simp: card_gt_0_iff)
  then have card': "int (card (?L - {j})) = int (card ?L) - 1"
    using ilj(4) live_finite [of ?cl] by (simp add: card_Diff_singleton of_nat_diff)
  have m1: "mass (?cl[i := Some (xs @ ys)]) = mass ?cl + mset ys"
  proof -
    from mass_update [of i ?cl "Some (xs @ ys)"] ilj(5) len xs(1)
    have "mass (?cl[i := Some (xs @ ys)]) + mset xs = mass ?cl + (mset xs + mset ys)"
      by (simp add: content_def)
    then show ?thesis by (simp add: ac_simps)
  qed
  have m2: "mass ?cl' = mass ?cl"
  proof -
    from mass_update [of j "?cl[i := Some (xs @ ys)]" None] ilj(2,6) len ys(1)
    have "mass ?cl' + mset ys = mass (?cl[i := Some (xs @ ys)])" by (simp add: content_def)
    with m1 show ?thesis by simp
  qed
  have ne': "\<forall>r < n. ?cl' ! r \<noteq> Some []"
  proof (intro allI impI)
    fix r assume r: "r < n"
    with nonempty have "?cl ! r \<noteq> Some []" by simp
    then show "?cl' ! r \<noteq> Some []"
      using xs(2) len r by (cases "r = j"; cases "r = i") (simp_all add: nth_list_update)
  qed
  have "agg_inv n (st'\<lparr>a_n_clusters := a_n_clusters st - 1\<rparr>)"
    unfolding agg_inv_def st'_def
    using len wlen rl(2,3) r(2) ids2 live' card' nc m2 ms ne' by simp
  moreover have "a_dominant st' = None" "a_criterion st' = a_criterion st" by (simp_all add: st'_def)
  ultimately show ?thesis using mp by blast
qed

lemma pairs_nonempty:
  assumes "finite L" "2 \<le> card L"
  shows "pairs_of L \<noteq> {}"
proof -
  from assms obtain x where x: "x \<in> L" by (cases "L = {}") auto
  have "card (L - {x}) \<ge> 1" using assms x by (simp add: card_Diff_singleton)
  then obtain y where y: "y \<in> L - {x}" by (cases "L - {x} = {}") auto
  then have "x \<noteq> y" "y \<in> L" by auto
  from pid_in_pairs [OF this(1) x this(2)] show ?thesis by auto
qed

lemma agglomerate_loop_fixed_k:
  fixes st :: "'u::linorder agg"
  assumes "agg_inv n st" "a_dominant st = None" "a_criterion st = None"
    and "1 \<le> k" "k \<le> a_n_clusters st"
  shows "\<exists>st'. agglomerate_loop (lookup_of n) n k st = Inr st' \<and> agg_inv n st'
           \<and> a_n_clusters st' = k \<and> a_dominant st' = None \<and> a_criterion st' = None"
  using assms
proof (induction "nat (a_n_clusters st - k)" arbitrary: st)
  case 0
  then have "a_n_clusters st = k" by simp
  then have "agglomerate_loop (lookup_of n) n k st = Inr st"
    by (subst agglomerate_loop.simps) simp
  with 0 \<open>a_n_clusters st = k\<close> show ?case by simp
next
  case (Suc m)
  let ?h = "a_heap st" and ?cl = "a_clusters st"
  from Suc.hyps(2) have gt: "a_n_clusters st > k" by simp
  from Suc.prems(1) have idsL: "ids ?h = pairs_of (live ?cl)"
    and nc: "a_n_clusters st = int (card (live ?cl))" unfolding agg_inv_def by blast+
  have "2 \<le> card (live ?cl)" using gt Suc.prems(4) nc by simp
  from pairs_nonempty [OF live_finite this] idsL have ne: "?h \<noteq> []"
    by (auto simp: ids_def)
  obtain d p u where hd: "hd ?h = (d, p, u)" by (cases "hd ?h") auto
  have pin: "p \<in> pairs_of (live ?cl)"
  proof -
    have "ident (hd ?h) \<in> ids ?h" using ne by (simp add: ids_def)
    with hd idsL show ?thesis by (simp add: ident_def)
  qed
  then obtain a b where ab: "p = index a b" "b < a" "a \<in> live ?cl" by (rule pairs_ofE)
  have an: "a < n" using ab(3) Suc.prems(1) by (simp add: live_def agg_inv_def)
  from lookup_of_index [OF ab(2) an] ab(1) have lk: "getitem (lookup_of n) p = Inr (a, b)"
    by (simp add: getitem_def)
  define i where "i = (if a > b then b else a)"
  define j where "j = (if a > b then a else b)"
  from merge_pair_inv [OF Suc.prems(1,2) ne hd lk i_def j_def] obtain st' where
    mp: "merge_pair n st p i j = Inr st'" "a_dominant st' = None" "a_criterion st' = a_criterion st"
        "agg_inv n (st'\<lparr>a_n_clusters := a_n_clusters st - 1\<rparr>)" by blast
  let ?st = "st'\<lparr>a_n_clusters := a_n_clusters st - 1\<rparr>"
  have same: "st\<lparr>a_criterion := None\<rparr> = st" using Suc.prems(3) by simp
  have mp': "merge_pair n (st\<lparr>a_criterion := None\<rparr>) p i j = Inr st'"
    using mp(1) same by simp
  have step: "agglomerate_loop (lookup_of n) n k st = agglomerate_loop (lookup_of n) n k ?st"
    using ne gt hd lk mp' Suc.prems(3) unfolding i_def j_def
    by (subst agglomerate_loop.simps) (simp add: Let_def)
  have m: "m = nat (a_n_clusters ?st - k)" using Suc.hyps(2) by simp
  have "\<exists>st''. agglomerate_loop (lookup_of n) n k ?st = Inr st'' \<and> agg_inv n st''
           \<and> a_n_clusters st'' = k \<and> a_dominant st'' = None \<and> a_criterion st'' = None"
    by (rule Suc.hyps(1) [OF m mp(4)]) (use mp(2,3) Suc.prems gt in simp_all)
  then show ?case unfolding step .
qed

lemma length_live_clusters: "length (live_clusters cl) = card (live cl)"
proof -
  have "length (live_clusters cl) = length (filter (\<lambda>c. case c of None \<Rightarrow> False | Some xs \<Rightarrow> xs \<noteq> []) cl)"
    by (induction cl) (auto simp: live_clusters_def split: option.splits)
  also have "\<dots> = card {r. r < length cl \<and> (case cl ! r of None \<Rightarrow> False | Some xs \<Rightarrow> xs \<noteq> [])}"
    by (rule length_filter_conv_card)
  finally show ?thesis by (simp add: live_def is_unmerged_def)
qed

lemma live_clusters_nonempty: "c \<in> set (live_clusters cl) \<Longrightarrow> c \<noteq> []"
  by (induction cl) (auto simp: live_clusters_def split: option.splits if_splits)

lemma mset_concat_perm:
  assumes "mset xs = mset ys"
  shows "mset (concat xs) = mset (concat ys)"
proof -
  have "mset (concat xs) = sum_mset (image_mset mset (mset xs))" for xs :: "'a list list"
    by (induction xs) auto
  with assms show ?thesis by simp
qed

lemma mset_concat_map_sort: "mset (concat (map sort xs)) = mset (concat xs)"
  by (induction xs) auto

lemma assign_component_spec:
  assumes "\<forall>j \<in> set c. j < length arr"
  shows "\<exists>arr'. assign_component arr v (map int c) = Inr arr' \<and> length arr' = length arr
           \<and> (\<forall>j < length arr. arr' ! j = (if j \<in> set c then v else arr ! j))"
  using assms
proof (induction c arbitrary: arr)
  case Nil
  then show ?case by simp
next
  case (Cons a c)
  have a: "a < length arr" using Cons.prems by simp
  then have set: "py_setitem arr (int a) v = Inr (arr[a := v])"
    by (simp add: py_setitem_def py_position_def)
  have "\<forall>j \<in> set c. j < length (arr[a := v])" using Cons.prems by simp
  from Cons.IH [OF this] obtain arr' where
    r: "assign_component (arr[a := v]) v (map int c) = Inr arr'" "length arr' = length arr"
       "\<forall>j < length arr. arr' ! j = (if j \<in> set c then v else arr[a := v] ! j)" by auto
  have "\<forall>j < length arr. arr' ! j = (if j \<in> set (a # c) then v else arr ! j)"
    using r(3) a by (auto simp: nth_list_update)
  with r(1,2) set show ?case by simp
qed

lemma components_from_spec:
  assumes "\<forall>c \<in> set (map snd ics). \<forall>j \<in> set c. j < length arr"
    and "distinct (concat (map snd ics))"
  shows "\<exists>arr'. components_from arr (map (\<lambda>(i, c). (i, map int c)) ics) = Inr arr'
           \<and> length arr' = length arr
           \<and> (\<forall>j < length arr.
                 (\<forall>i c. (i, c) \<in> set ics \<longrightarrow> j \<in> set c \<longrightarrow> arr' ! j = i + 1)
               \<and> ((\<forall>c \<in> set (map snd ics). j \<notin> set c) \<longrightarrow> arr' ! j = arr ! j))"
  using assms
proof (induction ics arbitrary: arr)
  case Nil
  then show ?case by simp
next
  case (Cons ic ics)
  obtain i c where ic: "ic = (i, c)" by (cases ic)
  have c: "\<forall>j \<in> set c. j < length arr" using Cons.prems(1) ic by simp
  from assign_component_spec [OF c, of "i + 1"] obtain arr1 where
    a1: "assign_component arr (i + 1) (map int c) = Inr arr1" "length arr1 = length arr"
        "\<forall>j < length arr. arr1 ! j = (if j \<in> set c then i + 1 else arr ! j)" by blast
  have p1: "\<forall>c \<in> set (map snd ics). \<forall>j \<in> set c. j < length arr1"
    using Cons.prems(1) a1(2) by simp
  have p2: "distinct (concat (map snd ics))" using Cons.prems(2) by simp
  from Cons.IH [OF p1 p2] obtain arr' where
    r: "components_from arr1 (map (\<lambda>(i, c). (i, map int c)) ics) = Inr arr'"
       "length arr' = length arr1"
       "\<forall>j < length arr1.
                 (\<forall>i c. (i, c) \<in> set ics \<longrightarrow> j \<in> set c \<longrightarrow> arr' ! j = i + 1)
               \<and> ((\<forall>c \<in> set (map snd ics). j \<notin> set c) \<longrightarrow> arr' ! j = arr1 ! j)" by blast
  have disj: "\<forall>c' \<in> set (map snd ics). set c \<inter> set c' = {}"
    using Cons.prems(2) ic by auto
  have "\<forall>j < length arr.
                 (\<forall>i' c'. (i', c') \<in> set (ic # ics) \<longrightarrow> j \<in> set c' \<longrightarrow> arr' ! j = i' + 1)
               \<and> ((\<forall>c' \<in> set (map snd (ic # ics)). j \<notin> set c') \<longrightarrow> arr' ! j = arr ! j)"
  proof (intro allI impI conjI)
    fix j i' c' assume j: "j < length arr" and m: "(i', c') \<in> set (ic # ics)" and jc: "j \<in> set c'"
    show "arr' ! j = i' + 1"
    proof (cases "(i', c') \<in> set ics")
      case True
      then show ?thesis using r(3) j a1(2) jc by auto
    next
      case False
      then have e: "i' = i" "c' = c" using m ic by auto
      have "\<forall>c'' \<in> set (map snd ics). j \<notin> set c''" using disj jc e by auto
      then have "arr' ! j = arr1 ! j" using r(3) j a1(2) by auto
      then show ?thesis using a1(3) j jc e by simp
    qed
  next
    fix j assume j: "j < length arr" and no: "\<forall>c' \<in> set (map snd (ic # ics)). j \<notin> set c'"
    then have "arr' ! j = arr1 ! j" using r(3) a1(2) by auto
    moreover have "j \<notin> set c" using no ic by simp
    ultimately show "arr' ! j = arr ! j" using a1(3) j by simp
  qed
  with r(1,2) a1(1,2) ic show ?case by simp
qed

lemma enumerate_map_int:
  "enumerate k (map (map int) css) = map (\<lambda>(i, c). (i, map int c)) (enumerate k css)"
  by (induction css arbitrary: k) auto

lemma components_spec:
  assumes "mset (concat css) = mset [0..<n]" "\<forall>c \<in> set css. c \<noteq> []"
  shows "\<exists>arr. components (map (map int) css) n = Inr arr \<and> length arr = n
           \<and> set arr = {1..length css}"
proof -
  let ?ics = "enumerate 0 css"
  have sn: "map snd ?ics = css" by simp
  have sc: "set (concat css) = {0..<n}" using assms(1) by (metis mset_eq_setD set_upt)
  have dc: "distinct (concat css)" using assms(1) by (metis distinct_upt mset_eq_imp_distinct_iff)
  have b: "\<forall>c \<in> set (map snd ?ics). \<forall>j \<in> set c. j < length (replicate n (0::nat))"
    using sc unfolding sn by auto
  have d: "distinct (concat (map snd ?ics))" using dc unfolding sn .
  from components_from_spec [OF b d] obtain arr where
    r: "components_from (replicate n 0) (map (\<lambda>(i, c). (i, map int c)) ?ics) = Inr arr"
       "length arr = n"
       "\<forall>j < n. (\<forall>i c. (i, c) \<in> set ?ics \<longrightarrow> j \<in> set c \<longrightarrow> arr ! j = i + 1)"
    by auto
  have mem: "(i, c) \<in> set ?ics \<longleftrightarrow> i < length css \<and> c = css ! i" for i c
    by (auto simp: in_set_enumerate_eq)
  have "set arr = {1..length css}"
  proof (intro equalityI subsetI)
    fix v assume "v \<in> set arr"
    then obtain j where j: "j < n" "arr ! j = v" using r(2) by (auto simp: in_set_conv_nth)
    then have "j \<in> {0..<n}" by simp
    then have "j \<in> set (concat css)" unfolding sc .
    then obtain c where c: "c \<in> set css" "j \<in> set c" by auto
    then obtain i where i: "i < length css" "css ! i = c" by (auto simp: in_set_conv_nth)
    then have "arr ! j = i + 1" using r(3) j(1) c(2) mem by blast
    then show "v \<in> {1..length css}" using j(2) i(1) by auto
  next
    fix v assume "v \<in> {1..length css}"
    then have "v = (v - 1) + 1 \<and> v - 1 < length css" by auto
    then obtain i where i: "v = i + 1" "i < length css" by blast
    then have "css ! i \<noteq> []" using assms(2) by simp
    then obtain j where j: "j \<in> set (css ! i)" by (cases "css ! i") auto
    then have "j \<in> set (concat css)" using i(2) by auto
    then have "j \<in> {0..<n}" unfolding sc .
    then have jn: "j < n" by simp
    have "(i, css ! i) \<in> set ?ics" using mem i(2) by simp
    then have "arr ! j = i + 1" using r(3) jn j by blast
    then have "arr ! j = v" using i(1) by simp
    then show "v \<in> set arr" using jn r(2) by (auto simp: in_set_conv_nth)
  qed
  with r(1,2) show ?thesis by (simp add: components_def enumerate_map_int)
qed

lemma finish_components:
  fixes st :: "'u agg"
  assumes "agg_inv n st" "a_dominant st = None" "a_criterion st = None" "a_n_clusters st = k"
  shows "\<exists>arr. finish points ''components'' n st = Inr (ComponentArray arr) \<and> length arr = n
           \<and> set arr = {1..nat k}"
proof -
  let ?cl = "a_clusters st"
  let ?cs = "sort_key hd (map sort (live_clusters ?cl))"
  have len: "length ?cs = nat k"
    using assms(1,4) by (simp add: agg_inv_def length_live_clusters)
  have ne: "\<forall>c \<in> set ?cs. c \<noteq> []"
  proof
    fix c assume "c \<in> set ?cs"
    then obtain c' where c': "c' \<in> set (live_clusters ?cl)" "c = sort c'" by auto
    from live_clusters_nonempty [OF c'(1)] have "length c' \<noteq> 0" by simp
    then have "length c \<noteq> 0" using c'(2) by simp
    then show "c \<noteq> []" by simp
  qed
  have "mset ?cs = mset (map sort (live_clusters ?cl))" by simp
  then have "mset (concat ?cs) = mset (concat (map sort (live_clusters ?cl)))"
    by (rule mset_concat_perm)
  also have "\<dots> = mass ?cl" by (simp add: mset_concat_map_sort mass_live)
  also have "\<dots> = mset [0..<n]" using assms(1) by (simp add: agg_inv_def)
  finally have m: "mset (concat ?cs) = mset [0..<n]" .
  from components_spec [OF m ne] len obtain arr where
    "components (map (map int) ?cs) n = Inr arr" "length arr = n" "set arr = {1..nat k}"
    by auto
  then show ?thesis using assms(2,3) by (simp add: finish_def)
qed

lemma length_triangle: "length (concat (map (\<lambda>i. map (g i) [0..<i]) [0..<n])) = tri n"
  by (induction n) (simp_all add: tri_Suc, simp add: tri_def)

lemma pairs_of_all: "pairs_of {0..<n} = {0..<tri n}"
proof (intro equalityI subsetI)
  fix p assume "p \<in> pairs_of {0..<n}"
  then obtain a b where "p = index a b" "b < a" "a \<in> {0..<n}" by (rule pairs_ofE)
  then show "p \<in> {0..<tri n}" using index_less [of b a n] by simp
next
  fix p assume "p \<in> {0..<tri n}"
  then have "p < tri n" by simp
  from lookup_of_nth [OF this] obtain a b where "b < a" "a < n" "index a b = p" by blast
  then show "p \<in> pairs_of {0..<n}" unfolding pairs_of_def by force
qed

lemma live_initial: "live (map (\<lambda>i. Some [i]) [0..<n]) = {0..<n}"
  unfolding live_def is_unmerged_def by auto

lemma mass_initial: "mass (map (\<lambda>i. Some [i]) xs) = mset xs"
  by (induction xs) (simp_all add: mass_def content_def)

lemma initial_heap:
  assumes "length ds = N" "length ps = N"
  shows "position_index (zip ds (zip [0..<N] ps)) [0..<N] \<and> ids (zip ds (zip [0..<N] ps)) = {0..<N}"
proof -
  let ?h = "zip ds (zip [0..<N] ps)"
  have len: "length ?h = N" using assms by simp
  have id: "ident (?h ! s) = s" if "s < N" for s using that assms by (simp add: ident_def)
  have "position_index ?h [0..<N]" unfolding position_index_def using len id by simp
  moreover have "ids ?h = {0..<N}"
  proof (intro equalityI subsetI)
    fix p assume "p \<in> ids ?h"
    then obtain s where "s < length ?h" "p = ident (?h ! s)"
      unfolding ids_def by (auto simp: in_set_conv_nth simp del: length_zip)
    then show "p \<in> {0..<N}" using id len by simp
  next
    fix p assume "p \<in> {0..<N}"
    then have p: "p < N" by simp
    then have "?h ! p \<in> set ?h" using len by (metis nth_mem)
    then have "ident (?h ! p) \<in> ids ?h" unfolding ids_def by (rule imageI)
    then show "p \<in> ids ?h" using id [OF p] by simp
  qed
  ultimately show ?thesis ..
qed

text \<open>
  Claim C3. For a list of \<open>n\<close> points, the precomputed provider of their
  \<open>n * (n - 1) / 2\<close> pairwise distances and an integer \<open>k\<close> with \<open>1 \<le> k \<le> n\<close>,
  \<^verbatim>\<open>agglomerate(points, k, distances, mode='components')\<close> returns (it raises nothing) an
  array with one entry per point whose values are exactly the cluster ids \<open>1, \<dots>, k\<close>,
  each of them occurring at least once.
\<close>

theorem agglomerate_components_exactly_k:
  fixes points :: "'a::linorder list"
  assumes ds: "length ds = length points * (length points - 1) div 2"
    and k: "1 \<le> k" "k \<le> int (length points)"
  shows "\<exists>cs. agglomerate points (MInt k) (PrecomputedDistances ds) ''components''
                = Inr (ComponentArray cs)
              \<and> length cs = length points \<and> set cs = {1..nat k}"
proof -
  define n where "n = length points"
  define N where "N = tri n"
  define ps where "ps = concat (map (\<lambda>i. map (\<lambda>j. (points ! i, points ! j)) [0..<i]) [0..<n])"
  define cl where "cl = map (\<lambda>i. Some [i]) [0..<n]"
  define h0 where "h0 = zip ds (zip [0..<N] ps)"
  have lds: "length ds = N" using ds unfolding N_def n_def tri_n [symmetric] .
  have lps: "length ps = N" by (simp add: ps_def N_def length_triangle)
  from initial_heap [OF lds lps] have p0: "position_index h0 [0..<N]" and i0: "ids h0 = {0..<N}"
    by (simp_all add: h0_def)
  from heapify_index [OF p0, of "rev [0..<length h0 div 2]"] obtain h w where
    hp: "heapify (rev [0..<length h0 div 2]) h0 [0..<N] = Inr (h, w)" "position_index h w"
        "mset h = mset h0" "length w = N" by auto
  have idh: "ids h = {0..<N}" using ids_mset [OF hp(3)] i0 by simp
  define st :: "('a \<times> 'a) agg" where
    "st = \<lparr>a_heap = h, a_whr = w, a_clusters = cl, a_criterion = None, a_dominant = None,
           a_n_clusters = int n\<rparr>"
  have inv: "agg_inv n st"
    unfolding agg_inv_def st_def
    using hp(2,4) idh
    by (simp add: cl_def live_initial pairs_of_all N_def mass_initial)
  have d: "a_dominant st = None" and c: "a_criterion st = None" and nc: "k \<le> a_n_clusters st"
    using k by (simp_all add: st_def n_def)
  from agglomerate_loop_fixed_k [OF inv d c k(1) nc] obtain st' where
    lp: "agglomerate_loop (lookup_of n) n k st = Inr st'" "agg_inv n st'" "a_n_clusters st' = k"
        "a_dominant st' = None" "a_criterion st' = None" by blast
  from finish_components [OF lp(2,4,5,3), of points] obtain arr where
    fin: "finish points ''components'' n st' = Inr (ComponentArray arr)" "length arr = n"
         "set arr = {1..nat k}" by blast
  have "agglomerate points (MInt k) (PrecomputedDistances ds) ''components''
          = Inr (ComponentArray arr)"
    unfolding agglomerate_def Let_def
    using hp(1) lp(1) fin(1) lds
    unfolding h0_def ps_def st_def cl_def lookup_of_def n_def [symmetric]
    by (simp add: n_def [symmetric])
  with fin(2,3) show ?thesis by (simp add: n_def)
qed

theorem agglomerate_components_exactly_k_witness:
  "length [1, 5, 4 :: real] = length [0, 1, 5 :: nat] * (length [0, 1, 5 :: nat] - 1) div 2
   \<and> (\<exists>cs. agglomerate [0, 1, 5 :: nat] (MInt 2) (PrecomputedDistances [1, 5, 4]) ''components''
                = Inr (ComponentArray cs)
          \<and> length cs = 3 \<and> set cs = {1..2})"
  using agglomerate_components_exactly_k [of "[1, 5, 4]" "[0, 1, 5 :: nat]" 2] by (simp add: numeral_3_eq_3)

end
